theory Spec2Isabelle
  imports Main "HOL-Library.Multiset" "HOL-Library.Sublist" "HOL-Library.Product_Lexorder"
    "HOL-Library.Char_ord" "HOL-Library.List_Lexorder"
begin

section \<open>Disjunctive itemset mining over an FP-tree: the program\<close>

text \<open>
  The Python program keeps a tree of mutable \<open>FPNode\<close> objects that refer to each other
  (parent, children, neighbour) and a header table of (head, tail) references. The
  embedding keeps the objects in a store, \<open>heap\<close>: a reference is a position in that
  list, and a method that mutates a node returns the tree with the store updated.
  The root object is created first (position 0), every later node is appended.
  Exceptions are values of \<open>error\<close>; a \<open>while\<close> loop that follows references is a
  partial function whose value \<open>None\<close> stands for a loop that does not return.
\<close>

datatype error = KeyError | ValueError | IndexError | AttributeError | TypeError

subsection \<open>Nodes and trees\<close>

text \<open>
  \<open>item\<close> and \<open>count_n\<close> are \<open>None\<close> for the root (Python's \<open>None\<close>); \<open>children\<close>
  is the dictionary from item to child, in insertion order.
\<close>

record 'a FPNode =
  item :: "'a option"
  count_n :: "nat option"
  parent :: "nat option"
  children :: "('a option \<times> nat) list"
  neighbour :: "nat option"
  nodeID :: nat

record 'a FPTree =
  heap :: "'a FPNode list"
  root :: nat
  header :: "'a option \<rightharpoonup> nat \<times> nat"
  nodesCount :: nat

definition FPNode_init :: "'a option \<Rightarrow> nat \<Rightarrow> nat option \<Rightarrow> 'a FPNode" where
  "FPNode_init it nid c =
     \<lparr>item = it, count_n = c, parent = None, children = [], neighbour = None, nodeID = nid\<rparr>"

definition FPTree_init :: "'a FPTree" where
  "FPTree_init = \<lparr>heap = [FPNode_init None 0 None], root = 0, header = Map.empty, nodesCount = 0\<rparr>"

definition incrementCount :: "'a FPNode \<Rightarrow> error + 'a FPNode" where
  "incrementCount n =
     (case count_n n of
        None \<Rightarrow> Inl ValueError
      | Some c \<Rightarrow> Inr (n\<lparr>count_n := Some (c + 1)\<rparr>))"

definition searchChildren :: "'a FPNode \<Rightarrow> 'a option \<Rightarrow> nat option" where
  "searchChildren n x = map_of (children n) x"

definition addChild :: "'a FPTree \<Rightarrow> nat \<Rightarrow> nat \<Rightarrow> 'a FPTree" where
  "addChild t self childNode =
     (let k = item (heap t ! childNode) in
      if map_of (children (heap t ! self)) k = None then
        let h1 = (heap t)[self := (heap t ! self)\<lparr>children := children (heap t ! self) @ [(k, childNode)]\<rparr>];
            h2 = h1[childNode := (h1 ! childNode)\<lparr>parent := Some self\<rparr>]
        in t\<lparr>heap := h2\<rparr>
      else t)"

definition updateNodesCount :: "'a FPTree \<Rightarrow> 'a FPTree" where
  "updateNodesCount t = t\<lparr>nodesCount := nodesCount t + 1\<rparr>"

definition updateHeader :: "'a FPTree \<Rightarrow> nat \<Rightarrow> 'a FPTree" where
  "updateHeader t node =
     (let k = item (heap t ! node) in
      case header t k of
        Some headerOfItem \<Rightarrow>
          t\<lparr>heap := (heap t)[snd headerOfItem := (heap t ! snd headerOfItem)\<lparr>neighbour := Some node\<rparr>],
            header := (header t)(k \<mapsto> (fst headerOfItem, node))\<rparr>
      | None \<Rightarrow> t\<lparr>header := (header t)(k \<mapsto> (node, node))\<rparr>)"

text \<open>
  \<open>addTransaction\<close>. The branch of the loop body that creates a node: the new node is
  the next object of the store and its identifier is the node counter; the branch gives
  the tree and the reference to the new node.
\<close>

definition addTransaction_else :: "'a FPTree \<Rightarrow> nat \<Rightarrow> 'a \<Rightarrow> 'a FPTree \<times> nat" where
  "addTransaction_else t currNode x =
     (let t1 = updateNodesCount t;
          nextNode = length (heap t1);
          t2 = t1\<lparr>heap := heap t1 @ [FPNode_init (Some x) (nodesCount t1) (Some 1)]\<rparr>;
          t3 = addChild t2 currNode nextNode;
          t4 = updateHeader t3 nextNode
      in (t4, nextNode))"

text \<open>The loop over the items of the transaction, from the current node.\<close>

fun addTransaction_loop :: "'a FPTree \<Rightarrow> nat \<Rightarrow> 'a list \<Rightarrow> error + 'a FPTree" where
  "addTransaction_loop t currNode [] = Inr t"
| "addTransaction_loop t currNode (x # xs) =
     (case searchChildren (heap t ! currNode) (Some x) of
        Some nextNode \<Rightarrow>
          (case incrementCount (heap t ! nextNode) of
             Inl e \<Rightarrow> Inl e
           | Inr n' \<Rightarrow> addTransaction_loop (t\<lparr>heap := (heap t)[nextNode := n']\<rparr>) nextNode xs)
      | None \<Rightarrow>
          (case addTransaction_else t currNode x of
             (t', nextNode) \<Rightarrow> addTransaction_loop t' nextNode xs))"

definition addTransaction :: "'a FPTree \<Rightarrow> 'a list \<Rightarrow> error + 'a FPTree" where
  "addTransaction t transaction = addTransaction_loop t (root t) transaction"

fun buildFPTree_loop :: "'a FPTree \<Rightarrow> 'a list list \<Rightarrow> error + 'a FPTree" where
  "buildFPTree_loop t [] = Inr t"
| "buildFPTree_loop t (transaction # rest) =
     (case addTransaction t transaction of
        Inl e \<Rightarrow> Inl e
      | Inr t' \<Rightarrow> buildFPTree_loop t' rest)"

definition buildFPTree :: "'a list list \<Rightarrow> error + 'a FPTree" where
  "buildFPTree transactions = buildFPTree_loop FPTree_init transactions"

subsection \<open>Python list operations that can raise\<close>

fun list_index :: "'a list \<Rightarrow> 'a \<Rightarrow> error + nat" where
  "list_index [] v = Inl ValueError"
| "list_index (x # xs) v =
     (if x = v then Inr 0
      else (case list_index xs v of Inl e \<Rightarrow> Inl e | Inr n \<Rightarrow> Inr (Suc n)))"

definition index_item :: "'a list \<Rightarrow> 'a option \<Rightarrow> error + nat" where
  "index_item xs it = (case it of None \<Rightarrow> Inl ValueError | Some x \<Rightarrow> list_index xs x)"

text \<open>\<open>xs[i]\<close>: an index below 0 counts from the end of the list.\<close>

definition list_get :: "'a list \<Rightarrow> int \<Rightarrow> error + 'a" where
  "list_get xs i =
     (if 0 \<le> i \<and> i < int (length xs) then Inr (xs ! nat i)
      else if i < 0 \<and> - int (length xs) \<le> i then Inr (xs ! nat (int (length xs) + i))
      else Inl IndexError)"

subsection \<open>Support by prefix paths\<close>

text \<open>
  The \<open>while Y_node != tree.root\<close> loop of \<open>checkPath\<close>; its value is \<open>found\<close> when the
  loop is left. \<open>itemList[i]\<close> is read inside the loop only.
\<close>

partial_function (option) checkPath_while ::
  "'a list \<Rightarrow> int \<Rightarrow> 'a FPTree \<Rightarrow> 'a list \<Rightarrow> nat option \<Rightarrow> (error + bool) option" where
  "checkPath_while itemList i t itemsOrder Y_node =
     (if Y_node = Some (root t) then Some (Inr False)
      else case Y_node of
        None \<Rightarrow> Some (Inl AttributeError)
      | Some y \<Rightarrow>
         (case list_get itemList i of
            Inl e \<Rightarrow> Some (Inl e)
          | Inr target \<Rightarrow>
             if item (heap t ! y) = Some target then Some (Inr True)
             else (case index_item itemsOrder (item (heap t ! y)) of
                     Inl e \<Rightarrow> Some (Inl e)
                   | Inr iy \<Rightarrow>
                      (case list_index itemsOrder target of
                         Inl e \<Rightarrow> Some (Inl e)
                       | Inr it \<Rightarrow>
                          if iy < it then Some (Inr False)
                          else checkPath_while itemList i t itemsOrder (parent (heap t ! y))))))"

function checkPath ::
  "'a list \<Rightarrow> int \<Rightarrow> nat \<Rightarrow> 'a FPTree \<Rightarrow> 'a list \<Rightarrow> (error + bool) option" where
  "checkPath itemList i X_node t itemsOrder =
     (if i \<ge> 0 then
        (case checkPath_while itemList i t itemsOrder (parent (heap t ! X_node)) of
           None \<Rightarrow> None
         | Some (Inl e) \<Rightarrow> Some (Inl e)
         | Some (Inr found) \<Rightarrow>
            if \<not> found then checkPath itemList (i - 1) X_node t itemsOrder
            else Some (Inr found))
      else Some (Inr False))"
  by pat_completeness auto
termination
  by (relation "measure (\<lambda>(itemList, i, X_node, t, itemsOrder). nat (i + 1))") auto

text \<open>The \<open>while X_node != None\<close> loop over the occurrence chain of one item.\<close>

partial_function (option) findSupport_while ::
  "'a list \<Rightarrow> int \<Rightarrow> 'a FPTree \<Rightarrow> 'a list \<Rightarrow> nat option \<Rightarrow> nat \<Rightarrow> (error + nat) option" where
  "findSupport_while newList k t itemsOrder X_node support =
     (case X_node of
        None \<Rightarrow> Some (Inr support)
      | Some x \<Rightarrow>
         (case checkPath newList (k - 1) x t itemsOrder of
            None \<Rightarrow> None
          | Some (Inl e) \<Rightarrow> Some (Inl e)
          | Some (Inr found) \<Rightarrow>
             if \<not> found then
               (case count_n (heap t ! x) of
                  None \<Rightarrow> Some (Inl TypeError)
                | Some c \<Rightarrow> findSupport_while newList k t itemsOrder (neighbour (heap t ! x)) (support + c))
             else findSupport_while newList k t itemsOrder (neighbour (heap t ! x)) support))"

text \<open>The \<open>for k in range(len(newList))\<close> loop, over the list of the indices left.\<close>

fun findSupport_for ::
  "'a list \<Rightarrow> 'a FPTree \<Rightarrow> 'a list \<Rightarrow> nat list \<Rightarrow> nat \<Rightarrow> (error + nat) option" where
  "findSupport_for newList t itemsOrder [] support = Some (Inr support)"
| "findSupport_for newList t itemsOrder (k # ks) support =
     (case header t (Some (newList ! k)) of
        None \<Rightarrow> Some (Inl KeyError)
      | Some h \<Rightarrow>
         (case findSupport_while newList (int k) t itemsOrder (Some (fst h)) support of
            None \<Rightarrow> None
          | Some (Inl e) \<Rightarrow> Some (Inl e)
          | Some (Inr support') \<Rightarrow> findSupport_for newList t itemsOrder ks support'))"

definition findSupportByPrefixPath ::
  "'a list \<Rightarrow> 'a FPTree \<Rightarrow> 'a list \<Rightarrow> (error + nat) option" where
  "findSupportByPrefixPath newList t itemsOrder =
     findSupport_for newList t itemsOrder [0..<length newList] 0"

subsection \<open>Support by breadth-first search\<close>

text \<open>
  The \<open>for node in childrenNodes\<close> loop; the state is the queue, the \<open>visited\<close> list and
  the support. The two calls of \<open>sorted\<close> drop their results and change nothing.
\<close>

fun bfs_for ::
  "'a FPTree \<Rightarrow> 'a list \<Rightarrow> nat list \<Rightarrow> nat list \<times> bool list \<times> nat \<Rightarrow>
   error + (nat list \<times> bool list \<times> nat)" where
  "bfs_for t newList [] st = Inr st"
| "bfs_for t newList (node # rest) (q, visited, support) =
     (let nid = nodeID (heap t ! node) in
      if length visited \<le> nid then Inl IndexError
      else if \<not> visited ! nid then
        (if item (heap t ! node) \<in> set (map Some newList) then
           (case count_n (heap t ! node) of
              None \<Rightarrow> Inl TypeError
            | Some c \<Rightarrow> bfs_for t newList rest (q, visited, support + c))
         else bfs_for t newList rest (q @ [node], visited[nid := True], support))
      else bfs_for t newList rest (q, visited, support))"

partial_function (option) bfs_while ::
  "'a FPTree \<Rightarrow> 'a list \<Rightarrow> nat list \<Rightarrow> bool list \<Rightarrow> nat \<Rightarrow> (error + nat) option" where
  "bfs_while t newList q visited support =
     (case q of
        [] \<Rightarrow> Some (Inr support)
      | srcNode # q' \<Rightarrow>
         (case bfs_for t newList (map snd (children (heap t ! srcNode))) (q', visited, support) of
            Inl e \<Rightarrow> Some (Inl e)
          | Inr (q'', visited', support') \<Rightarrow> bfs_while t newList q'' visited' support'))"

definition findSupportByBFS :: "'a list \<Rightarrow> 'a FPTree \<Rightarrow> (error + nat) option" where
  "findSupportByBFS newList t =
     bfs_while t newList [root t] ((replicate (nodesCount t + 1) False)[0 := True]) 0"

subsection \<open>Enumeration of the itemsets\<close>

text \<open>
  \<open>generateItemsets\<close>: the second argument is the loop variable \<open>i\<close>, which starts at
  \<open>start\<close>; the result is the list \<open>freqItemsets\<close> as the call leaves it. An entry
  \<open>{str(newList): val}\<close> is the pair of the itemset and its support.
\<close>

function generateItemsets ::
  "'a list \<Rightarrow> int \<Rightarrow> int \<Rightarrow> int \<Rightarrow> int \<Rightarrow> 'a FPTree \<Rightarrow> 'a list \<Rightarrow> ('a list \<times> nat) list \<Rightarrow>
   (error + ('a list \<times> nat) list) option" where
  "generateItemsets itemsList i endIdx depth minSupp fpt itemsOrder freqItemsets =
     (if i \<ge> endIdx then
        if depth = endIdx + 1 then Some (Inr freqItemsets)
        else
          (case list_get itemsList i of
             Inl e \<Rightarrow> Some (Inl e)
           | Inr x \<Rightarrow>
              (case findSupportByPrefixPath (remove1 x itemsList) fpt itemsOrder of
                 None \<Rightarrow> None
               | Some (Inl e) \<Rightarrow> Some (Inl e)
               | Some (Inr val) \<Rightarrow>
                  if int val \<ge> minSupp then
                    (case generateItemsets (remove1 x itemsList) (i - 1) endIdx (depth - 1) minSupp fpt
                            itemsOrder (freqItemsets @ [(remove1 x itemsList, val)]) of
                       None \<Rightarrow> None
                     | Some (Inl e) \<Rightarrow> Some (Inl e)
                     | Some (Inr freqItemsets') \<Rightarrow>
                        generateItemsets itemsList (i - 1) endIdx depth minSupp fpt itemsOrder freqItemsets')
                  else generateItemsets itemsList (i - 1) endIdx depth minSupp fpt itemsOrder freqItemsets))
      else Some (Inr freqItemsets))"
  by pat_completeness auto
termination
  by (relation "measure (\<lambda>(itemsList, i, endIdx, depth, minSupp, fpt, itemsOrder, freqItemsets).
        nat (i - endIdx + 1))") auto

definition findFrequentItemsets ::
  "'a FPTree \<Rightarrow> 'a list \<Rightarrow> int \<Rightarrow> (error + ('a list \<times> nat) list) option" where
  "findFrequentItemsets fpt itemsOrder minSupp =
     generateItemsets itemsOrder (int (length itemsOrder) - 1) 0 (int (length itemsOrder)) minSupp
       fpt itemsOrder []"

subsection \<open>Ordering the items\<close>

text \<open>
  \<open>itemsDict\<close> is the dictionary of the counts, its keys in the order of their first
  occurrence; \<open>itemsDict[item] += 1\<close> on the \<open>defaultdict\<close> starts a missing key at 0.
\<close>

fun itemsDict_incr :: "('a \<times> nat) list \<Rightarrow> 'a \<Rightarrow> ('a \<times> nat) list" where
  "itemsDict_incr [] it = [(it, 1)]"
| "itemsDict_incr ((k, c) # d) it =
     (if k = it then (k, c + 1) # d else (k, c) # itemsDict_incr d it)"

definition countItems :: "'a list list \<Rightarrow> ('a \<times> nat) list" where
  "countItems transactions =
     fold (\<lambda>transaction d. fold (\<lambda>it d'. itemsDict_incr d' it) transaction d) transactions []"

text \<open>
  \<open>sorted(xs, key=key, reverse=True)\<close>: the stable sort of the reversed list, reversed,
  so that equal keys keep their order.
\<close>

definition sorted_reverse :: "('b \<Rightarrow> 'k::linorder) \<Rightarrow> 'b list \<Rightarrow> 'b list" where
  "sorted_reverse key xs = rev (sort_key key (rev xs))"

text \<open>
  \<open>cleanTransactions\<close>: the items with an entry in the dictionary, sorted by
  \<open>itemsOrder.index\<close>; the keys are computed first, as \<open>list.sort\<close> does, and
  \<open>index\<close> raises on an item that is not in the list.
\<close>

fun index_keys :: "'a list \<Rightarrow> 'a list \<Rightarrow> error + (nat \<times> 'a) list" where
  "index_keys itemsOrder [] = Inr []"
| "index_keys itemsOrder (v # vs) =
     (case list_index itemsOrder v of
        Inl e \<Rightarrow> Inl e
      | Inr k \<Rightarrow> (case index_keys itemsOrder vs of Inl e \<Rightarrow> Inl e | Inr r \<Rightarrow> Inr ((k, v) # r)))"

definition cleanTransactions :: "'a list \<Rightarrow> 'a list \<Rightarrow> error + 'a list" where
  "cleanTransactions itemsOrder transaction =
     (case index_keys itemsOrder (filter (\<lambda>v. v \<in> set itemsOrder) transaction) of
        Inl e \<Rightarrow> Inl e
      | Inr kvs \<Rightarrow> Inr (map snd (sort_key fst kvs)))"

fun cleanAll :: "'a list \<Rightarrow> 'a list list \<Rightarrow> error + 'a list list" where
  "cleanAll itemsOrder [] = Inr []"
| "cleanAll itemsOrder (transaction # rest) =
     (case cleanTransactions itemsOrder transaction of
        Inl e \<Rightarrow> Inl e
      | Inr tr \<Rightarrow> (case cleanAll itemsOrder rest of Inl e \<Rightarrow> Inl e | Inr r \<Rightarrow> Inr (tr # r)))"

text \<open>The filter on the minimum support is commented out in the source: \<open>minSupp\<close> is not used.\<close>

definition filterTransactions :: "('a::linorder) list list \<Rightarrow> int \<Rightarrow> error + ('a list list \<times> 'a list)" where
  "filterTransactions transactions minSupp =
     (let itemsDict = countItems transactions;
          itemsDictOrdered = sorted_reverse (\<lambda>(it, support). (support, it)) itemsDict;
          itemsOrder = map fst itemsDictOrdered
      in case cleanAll itemsOrder transactions of
           Inl e \<Rightarrow> Inl e
         | Inr transactionsNew \<Rightarrow> Inr (transactionsNew, itemsOrder))"

subsection \<open>The main program after the dataset is read\<close>

definition mine :: "('a::linorder) list list \<Rightarrow> int \<Rightarrow> (error + ('a list \<times> nat) list) option" where
  "mine dataset minSupp =
     (case filterTransactions dataset minSupp of
        Inl e \<Rightarrow> Some (Inl e)
      | Inr (transactions, itemsOrder) \<Rightarrow>
         (case buildFPTree transactions of
            Inl e \<Rightarrow> Some (Inl e)
          | Inr tree \<Rightarrow> findFrequentItemsets tree itemsOrder minSupp))"

definition cnt :: "'a list multiset \<Rightarrow> 'a list \<Rightarrow> nat" where
  "cnt M p = size (filter_mset (prefix p) M)"

fun linked :: "'a FPNode list \<Rightarrow> nat option \<Rightarrow> nat list \<Rightarrow> bool" where
  "linked h X [] = (X = None)"
| "linked h X (n # ns) = (X = Some n \<and> linked h (neighbour (h ! n)) ns)"

definition occs :: "'a list list \<Rightarrow> 'a \<Rightarrow> nat list" where
  "occs ps x = filter (\<lambda>n. last (ps ! n) = x) [1..<length ps]"

definition kids :: "'a list list \<Rightarrow> nat \<Rightarrow> nat list" where
  "kids ps n = filter (\<lambda>c. butlast (ps ! c) = ps ! n) [1..<length ps]"

definition paths_ok :: "'a list multiset \<Rightarrow> 'a list list \<Rightarrow> bool" where
  "paths_ok M ps \<longleftrightarrow>
     ps \<noteq> [] \<and> ps ! 0 = [] \<and> distinct ps \<and>
     (\<forall>n. 0 < n \<and> n < length ps \<longrightarrow>
        ps ! n \<noteq> [] \<and> (\<exists>p<n. ps ! p = butlast (ps ! n)) \<and> (\<exists>q\<in>#M. prefix (ps ! n) q)) \<and>
     (\<forall>q\<in>#M. \<forall>p. prefix p q \<longrightarrow> p \<in> set ps)"

definition heap_ok :: "'a list multiset \<Rightarrow> 'a list list \<Rightarrow> 'a FPTree \<Rightarrow> bool" where
  "heap_ok M ps t \<longleftrightarrow>
     root t = 0 \<and> length (heap t) = length ps \<and> nodesCount t + 1 = length ps \<and>
     (\<forall>n. 0 < n \<and> n < length ps \<longrightarrow>
        (\<exists>p<n. parent (heap t ! n) = Some p \<and> ps ! p = butlast (ps ! n)) \<and>
        item (heap t ! n) = Some (last (ps ! n)) \<and>
        count_n (heap t ! n) = Some (cnt M (ps ! n))) \<and>
     (\<forall>n<length ps.
        nodeID (heap t ! n) = n \<and>
        children (heap t ! n) = map (\<lambda>c. (Some (last (ps ! c)), c)) (kids ps n))"

definition header_ok :: "'a list list \<Rightarrow> 'a FPTree \<Rightarrow> bool" where
  "header_ok ps t \<longleftrightarrow>
     header t None = None \<and>
     (\<forall>x. linked (heap t) (map_option fst (header t (Some x))) (occs ps x) \<and>
          (\<forall>h. header t (Some x) = Some h \<longrightarrow> snd h = last (occs ps x)))"

definition tree_inv :: "'a list multiset \<Rightarrow> 'a list list \<Rightarrow> 'a FPTree \<Rightarrow> bool" where
  "tree_inv M ps t \<longleftrightarrow> paths_ok M ps \<and> heap_ok M ps t \<and> header_ok ps t"

definition else_heap0 :: "'a FPTree \<Rightarrow> nat \<Rightarrow> 'a \<Rightarrow> 'a FPNode list" where
  "else_heap0 t cur x =
     (heap t)[cur := (heap t ! cur)\<lparr>children := children (heap t ! cur) @ [(Some x, length (heap t))]\<rparr>]
       @ [\<lparr>item = Some x, count_n = Some 1, parent = Some cur, children = [], neighbour = None,
            nodeID = nodesCount t + 1\<rparr>]"

definition else_heap :: "'a FPTree \<Rightarrow> nat \<Rightarrow> 'a \<Rightarrow> 'a FPNode list" where
  "else_heap t cur x =
     (case header t (Some x) of
        None \<Rightarrow> else_heap0 t cur x
      | Some h \<Rightarrow> (else_heap0 t cur x)[snd h := (else_heap0 t cur x ! snd h)\<lparr>neighbour := Some (length (heap t))\<rparr>])"

definition else_header :: "'a FPTree \<Rightarrow> 'a \<Rightarrow> ('a option \<rightharpoonup> nat \<times> nat)" where
  "else_header t x =
     (header t)(Some x \<mapsto> (case header t (Some x) of None \<Rightarrow> (length (heap t), length (heap t))
                                | Some h \<Rightarrow> (fst h, length (heap t))))"

fun sum_counts :: "nat option list \<Rightarrow> error + nat" where
  "sum_counts [] = Inr 0"
| "sum_counts (c # cs) =
     (case c of
        None \<Rightarrow> Inl TypeError
      | Some k \<Rightarrow> (case sum_counts cs of Inl e \<Rightarrow> Inl e | Inr s \<Rightarrow> Inr (k + s)))"

definition rootChildCountSum :: "'a FPTree \<Rightarrow> error + nat" where
  "rootChildCountSum t =
     sum_counts (map (\<lambda>c. count_n (heap t ! c)) (map snd (children (heap t ! root t))))"

definition precedes :: "'a list \<Rightarrow> 'a \<Rightarrow> 'a \<Rightarrow> bool" where
  "precedes itemsOrder a b =
     (case (list_index itemsOrder a, list_index itemsOrder b) of
        (Inr m, Inr n) \<Rightarrow> m < n
      | _ \<Rightarrow> False)"

definition canonical :: "'a list \<Rightarrow> 'a list \<Rightarrow> bool" where
  "canonical itemsOrder xs \<longleftrightarrow> sorted_wrt (precedes itemsOrder) xs \<and> set xs \<subseteq> set itemsOrder"

definition orSupport :: "'a list list \<Rightarrow> 'a list \<Rightarrow> nat" where
  "orSupport transactions itemset =
     length (filter (\<lambda>transaction. list_ex (\<lambda>x. x \<in> set itemset) transaction) transactions)"

definition contrib :: "'a list multiset \<Rightarrow> 'a list list \<Rightarrow> 'a list \<Rightarrow> nat \<Rightarrow> nat" where
  "contrib M ps newList k =
     sum_list (map (\<lambda>n. cnt M (ps ! n))
       (filter (\<lambda>n. \<not> (\<exists>j<k. newList ! j \<in> set (butlast (ps ! n)))) (occs ps (newList ! k))))"

definition first_hit :: "'a set \<Rightarrow> 'a \<Rightarrow> 'a list \<Rightarrow> bool" where
  "first_hit S x q \<longleftrightarrow> (\<exists>w rest. q = w @ x # rest \<and> (\<forall>y\<in>set w. y \<notin> S))"




definition rootChildCountSum_of :: "'a list list \<Rightarrow> error + nat" where
  "rootChildCountSum_of transactions =
     (case buildFPTree transactions of Inl e \<Rightarrow> Inl e | Inr t \<Rightarrow> rootChildCountSum t)"

definition supportByPrefixPath_of :: "'a list list \<Rightarrow> 'a list \<Rightarrow> 'a list \<Rightarrow> (error + nat) option" where
  "supportByPrefixPath_of transactions newList itemsOrder =
     (case buildFPTree transactions of
        Inl e \<Rightarrow> Some (Inl e)
      | Inr t \<Rightarrow> findSupportByPrefixPath newList t itemsOrder)"

declare checkPath.simps [simp del] generateItemsets.simps [simp del]

lemma checkPath_while_None:
  "checkPath_while il i t ord None = (if None = Some (root t) then Some (Inr False) else Some (Inl AttributeError))"
  by (subst checkPath_while.simps) simp

lemmas checkPath_while_Some = checkPath_while.simps [of _ _ _ _ "Some y" for y]

lemmas findSupport_while_None = findSupport_while.simps [of _ _ _ _ None, simplified]

lemmas findSupport_while_Some = findSupport_while.simps [of _ _ _ _ "Some x" for x, simplified]

lemmas bfs_while_Nil = bfs_while.simps [of _ _ "[]", simplified]

lemmas bfs_while_Cons = bfs_while.simps [of _ _ "x # xs" for x xs, simplified]

lemmas eval_simps = checkPath_while_None checkPath_while_Some findSupport_while_None findSupport_while_Some
  bfs_while_Nil bfs_while_Cons checkPath.simps generateItemsets.simps
  buildFPTree_def FPTree_init_def FPNode_init_def addTransaction_def addTransaction_else_def
  searchChildren_def incrementCount_def
  addChild_def updateNodesCount_def updateHeader_def findSupportByPrefixPath_def findSupportByBFS_def
  findFrequentItemsets_def list_get_def index_item_def Let_def upt_rec

lemma tree_inv_init: "tree_inv {#} [[]] FPTree_init"
  by (auto simp add: tree_inv_def paths_ok_def heap_ok_def header_ok_def FPTree_init_def FPNode_init_def
      kids_def occs_def)

lemma cnt_add: "cnt (add_mset q M) p = (if prefix p q then 1 else 0) + cnt M p"
  by (simp add: cnt_def)

lemma paths_in_range:
  assumes "paths_ok M ps" "prefix p q" "q \<in># M"
  obtains n where "n < length ps" "ps ! n = p"
  using assms unfolding paths_ok_def by (metis in_set_conv_nth)

lemma paths_inj: "paths_ok M ps \<Longrightarrow> m < length ps \<Longrightarrow> n < length ps \<Longrightarrow> ps ! m = ps ! n \<Longrightarrow> m = n"
  by (simp add: paths_ok_def nth_eq_iff_index_eq)

text \<open>entering a transaction: the empty prefix changes nothing\<close>

lemma paths_ok_start: "paths_ok M ps \<Longrightarrow> paths_ok (add_mset [] M) ps"
  unfolding paths_ok_def by (auto simp: nth_Cons' intro: nth_mem) (metis length_greater_0_conv nth_mem)

lemma heap_ok_start: "paths_ok M ps \<Longrightarrow> heap_ok M ps t \<Longrightarrow> heap_ok (add_mset [] M) ps t"
  unfolding heap_ok_def paths_ok_def by (auto simp: cnt_add)

lemma tree_inv_start: "tree_inv M ps t \<Longrightarrow> tree_inv (add_mset [] M) ps t"
  by (simp add: tree_inv_def paths_ok_start heap_ok_start)

lemma paths_okI:
  assumes "ps \<noteq> []" "ps ! 0 = []" "distinct ps"
    "\<And>n. 0 < n \<Longrightarrow> n < length ps \<Longrightarrow> ps ! n \<noteq> []"
    "\<And>n. 0 < n \<Longrightarrow> n < length ps \<Longrightarrow> \<exists>p<n. ps ! p = butlast (ps ! n)"
    "\<And>n. 0 < n \<Longrightarrow> n < length ps \<Longrightarrow> \<exists>q\<in>#M. prefix (ps ! n) q"
    "\<And>q p. q \<in># M \<Longrightarrow> prefix p q \<Longrightarrow> p \<in> set ps"
  shows "paths_ok M ps"
  unfolding paths_ok_def using assms by simp

lemma paths_okD:
  assumes "paths_ok M ps"
  shows "ps \<noteq> []" "ps ! 0 = []" "distinct ps"
    "\<And>n. 0 < n \<Longrightarrow> n < length ps \<Longrightarrow> ps ! n \<noteq> []"
    "\<And>n. 0 < n \<Longrightarrow> n < length ps \<Longrightarrow> \<exists>p<n. ps ! p = butlast (ps ! n)"
    "\<And>n. 0 < n \<Longrightarrow> n < length ps \<Longrightarrow> \<exists>q\<in>#M. prefix (ps ! n) q"
    "\<And>q p. q \<in># M \<Longrightarrow> prefix p q \<Longrightarrow> p \<in> set ps"
  using assms unfolding paths_ok_def by simp_all

lemma paths_ok_found:
  assumes "paths_ok (add_mset p M) ps" "p @ [x] \<in> set ps"
  shows "paths_ok (add_mset (p @ [x]) M) ps"
proof (rule paths_okI)
  note D = paths_okD[OF assms(1)]
  show "ps \<noteq> []" "ps ! 0 = []" "distinct ps" by (rule D)+
  fix n assume n: "0 < n" "n < length ps"
  show "ps ! n \<noteq> []" using n by (rule D)
  show "\<exists>p<n. ps ! p = butlast (ps ! n)" using n by (rule D)
  from D(6)[OF n] obtain q where "q \<in># add_mset p M" "prefix (ps ! n) q" by blast
  then show "\<exists>q\<in>#add_mset (p @ [x]) M. prefix (ps ! n) q"
    by (cases "q = p") (auto intro: prefix_order.trans)
next
  note D = paths_okD[OF assms(1)]
  fix q r assume q: "q \<in># add_mset (p @ [x]) M" "prefix r q"
  show "r \<in> set ps"
  proof (cases "q = p @ [x]")
    case True
    with q have "r = p @ [x] \<or> prefix r p" by (simp add: prefix_snoc)
    then show ?thesis using assms(2) D(7)[of p r] by auto
  next
    case False
    with q D(7)[of q r] show ?thesis by auto
  qed
qed

lemma paths_ok_new:
  assumes "paths_ok (add_mset p M) ps" "p @ [x] \<notin> set ps" "cur < length ps" "ps ! cur = p"
  shows "paths_ok (add_mset (p @ [x]) M) (ps @ [p @ [x]])"
proof (rule paths_okI)
  note D = paths_okD[OF assms(1)]
  show "ps @ [p @ [x]] \<noteq> []" by simp
  show "(ps @ [p @ [x]]) ! 0 = []" using D(1,2) by (simp add: nth_append)
  show "distinct (ps @ [p @ [x]])" using D(3) assms(2) by simp
  fix n assume n: "0 < n" "n < length (ps @ [p @ [x]])"
  show "(ps @ [p @ [x]]) ! n \<noteq> []" using n D(4)[of n] by (simp add: nth_append)
  show "\<exists>p'<n. (ps @ [p @ [x]]) ! p' = butlast ((ps @ [p @ [x]]) ! n)"
  proof (cases "n < length ps")
    case True
    from D(5)[OF n(1) True] obtain p' where "p' < n" "ps ! p' = butlast (ps ! n)" by blast
    with True show ?thesis by (intro exI[of _ p']) (simp add: nth_append)
  next
    case False
    with n have "n = length ps" by simp
    with assms(3,4) show ?thesis by (intro exI[of _ cur]) (simp add: nth_append)
  qed
  show "\<exists>q\<in>#add_mset (p @ [x]) M. prefix ((ps @ [p @ [x]]) ! n) q"
  proof (cases "n < length ps")
    case True
    from D(6)[OF n(1) True] obtain q where "q \<in># add_mset p M" "prefix (ps ! n) q" by blast
    then have "\<exists>q\<in>#add_mset (p @ [x]) M. prefix (ps ! n) q"
      by (cases "q = p") (auto intro: prefix_order.trans)
    with True show ?thesis by (simp add: nth_append)
  next
    case False
    with n have "n = length ps" by simp
    then show ?thesis by simp
  qed
next
  note D = paths_okD[OF assms(1)]
  fix q r assume q: "q \<in># add_mset (p @ [x]) M" "prefix r q"
  show "r \<in> set (ps @ [p @ [x]])"
  proof (cases "q = p @ [x]")
    case True
    with q have "r = p @ [x] \<or> prefix r p" by (simp add: prefix_snoc)
    then show ?thesis using D(7)[of p r] by auto
  next
    case False
    with q D(7)[of q r] show ?thesis by auto
  qed
qed

lemma search_found:
  assumes "paths_ok M ps" "heap_ok M ps t" "cur < length ps"
    "searchChildren (heap t ! cur) (Some x) = Some c"
  shows "0 < c \<and> c < length ps \<and> ps ! c = ps ! cur @ [x]"
proof -
  from assms(2,3) have ch: "children (heap t ! cur) = map (\<lambda>c. (Some (last (ps ! c)), c)) (kids ps cur)"
    unfolding heap_ok_def by blast
  from assms(4) have "(Some x, c) \<in> set (children (heap t ! cur))"
    unfolding searchChildren_def by (rule map_of_SomeD)
  with ch have c: "c \<in> set (kids ps cur)" "last (ps ! c) = x" by auto
  then have r: "0 < c" "c < length ps" "butlast (ps ! c) = ps ! cur" by (auto simp: kids_def)
  with assms(1) have "ps ! c \<noteq> []" unfolding paths_ok_def by blast
  then have "ps ! c = butlast (ps ! c) @ [last (ps ! c)]" by simp
  with r c show ?thesis by simp
qed

lemma search_none:
  assumes "paths_ok M ps" "heap_ok M ps t" "cur < length ps"
    "searchChildren (heap t ! cur) (Some x) = None"
  shows "ps ! cur @ [x] \<notin> set ps"
proof
  assume "ps ! cur @ [x] \<in> set ps"
  then obtain c where c: "c < length ps" "ps ! c = ps ! cur @ [x]" by (auto simp: in_set_conv_nth)
  with assms(1) have "c \<noteq> 0" unfolding paths_ok_def by (metis snoc_eq_iff_butlast)
  with c have "c \<in> set (kids ps cur)" by (auto simp: kids_def)
  moreover from assms(2,3) have ch: "children (heap t ! cur) = map (\<lambda>c. (Some (last (ps ! c)), c)) (kids ps cur)"
    unfolding heap_ok_def by blast
  ultimately have "(Some x, c) \<in> set (children (heap t ! cur))" using c by (auto simp: image_iff)
  then have "Some x \<in> fst ` set (children (heap t ! cur))" by force
  with assms(4) show False unfolding searchChildren_def by (simp add: map_of_eq_None_iff)
qed

lemma heap_okD:
  assumes "heap_ok M ps t"
  shows "root t = 0" "length (heap t) = length ps" "nodesCount t + 1 = length ps"
    "\<And>n. 0 < n \<Longrightarrow> n < length ps \<Longrightarrow> \<exists>p<n. parent (heap t ! n) = Some p \<and> ps ! p = butlast (ps ! n)"
    "\<And>n. 0 < n \<Longrightarrow> n < length ps \<Longrightarrow> item (heap t ! n) = Some (last (ps ! n))"
    "\<And>n. 0 < n \<Longrightarrow> n < length ps \<Longrightarrow> count_n (heap t ! n) = Some (cnt M (ps ! n))"
    "\<And>n. n < length ps \<Longrightarrow> nodeID (heap t ! n) = n"
    "\<And>n. n < length ps \<Longrightarrow> children (heap t ! n) = map (\<lambda>c. (Some (last (ps ! c)), c)) (kids ps n)"
  using assms unfolding heap_ok_def by simp_all

lemma heap_okI:
  assumes "root t = 0" "length (heap t) = length ps" "nodesCount t + 1 = length ps"
    "\<And>n. 0 < n \<Longrightarrow> n < length ps \<Longrightarrow> \<exists>p<n. parent (heap t ! n) = Some p \<and> ps ! p = butlast (ps ! n)"
    "\<And>n. 0 < n \<Longrightarrow> n < length ps \<Longrightarrow> item (heap t ! n) = Some (last (ps ! n))"
    "\<And>n. 0 < n \<Longrightarrow> n < length ps \<Longrightarrow> count_n (heap t ! n) = Some (cnt M (ps ! n))"
    "\<And>n. n < length ps \<Longrightarrow> nodeID (heap t ! n) = n"
    "\<And>n. n < length ps \<Longrightarrow> children (heap t ! n) = map (\<lambda>c. (Some (last (ps ! c)), c)) (kids ps n)"
  shows "heap_ok M ps t"
  unfolding heap_ok_def using assms by simp

lemma cnt_step:
  assumes "q \<noteq> p @ [x]"
  shows "cnt (add_mset (p @ [x]) M) q = cnt (add_mset p M) q"
  using assms by (simp add: cnt_add prefix_snoc)

lemma cnt_step_self: "cnt (add_mset (p @ [x]) M) (p @ [x]) = cnt (add_mset p M) (p @ [x]) + 1"
  by (simp add: cnt_add)

lemma heap_ok_found:
  assumes P: "paths_ok (add_mset p M) ps" and H: "heap_ok (add_mset p M) ps t"
    and c: "0 < c" "c < length ps" "ps ! c = p @ [x]"
  shows "incrementCount (heap t ! c) = Inr ((heap t ! c)\<lparr>count_n := Some (cnt (add_mset (p @ [x]) M) (p @ [x]))\<rparr>)"
    and "heap_ok (add_mset (p @ [x]) M) ps
           (t\<lparr>heap := (heap t)[c := (heap t ! c)\<lparr>count_n := Some (cnt (add_mset (p @ [x]) M) (p @ [x]))\<rparr>]\<rparr>)"
proof -
  note D = heap_okD[OF H]
  from D(6)[OF c(1,2)] c(3) show "incrementCount (heap t ! c) = Inr ((heap t ! c)\<lparr>count_n := Some (cnt (add_mset (p @ [x]) M) (p @ [x]))\<rparr>)"
    by (simp add: incrementCount_def cnt_step_self)
  let ?t = "t\<lparr>heap := (heap t)[c := (heap t ! c)\<lparr>count_n := Some (cnt (add_mset (p @ [x]) M) (p @ [x]))\<rparr>]\<rparr>"
  show "heap_ok (add_mset (p @ [x]) M) ps ?t"
  proof (rule heap_okI)
    show "root ?t = 0" "length (heap ?t) = length ps" "nodesCount ?t + 1 = length ps"
      using D(1,2,3) by simp_all
    fix n assume n: "0 < n" "n < length ps"
    show "\<exists>p<n. parent (heap ?t ! n) = Some p \<and> ps ! p = butlast (ps ! n)"
      using D(4)[OF n] D(2) n by (cases "n = c") simp_all
    show "item (heap ?t ! n) = Some (last (ps ! n))"
      using D(5)[OF n] D(2) n by (cases "n = c") simp_all
    show "count_n (heap ?t ! n) = Some (cnt (add_mset (p @ [x]) M) (ps ! n))"
    proof (cases "n = c")
      case True
      then show ?thesis using D(2) c by simp
    next
      case False
      with paths_inj[OF P n(2) c(2)] c(3) have "ps ! n \<noteq> p @ [x]" by auto
      with False D(6)[OF n] D(2) n show ?thesis by (simp add: cnt_step)
    qed
  next
    fix n assume n: "n < length ps"
    show "nodeID (heap ?t ! n) = n" using D(7)[OF n] D(2) n by (cases "n = c") simp_all
    show "children (heap ?t ! n) = map (\<lambda>c. (Some (last (ps ! c)), c)) (kids ps n)"
      using D(8)[OF n] D(2) n by (cases "n = c") simp_all
  qed
qed

lemma linked_cong:
  "(\<And>n. n \<in> set ns \<Longrightarrow> neighbour (h' ! n) = neighbour (h ! n)) \<Longrightarrow> linked h' X ns = linked h X ns"
  by (induction ns arbitrary: X) auto

lemma header_ok_found:
  assumes "header_ok ps t" "c < length (heap t)"
  shows "header_ok ps (t\<lparr>heap := (heap t)[c := (heap t ! c)\<lparr>count_n := k\<rparr>]\<rparr>)"
proof -
  have "neighbour ((heap t)[c := (heap t ! c)\<lparr>count_n := k\<rparr>] ! n) = neighbour (heap t ! n)" for n
    using assms(2) by (cases "n = c") simp_all
  then have "linked ((heap t)[c := (heap t ! c)\<lparr>count_n := k\<rparr>]) X ns = linked (heap t) X ns" for X ns
    by (intro linked_cong) simp
  with assms(1) show ?thesis unfolding header_ok_def by simp
qed

lemma step_found:
  assumes "tree_inv (add_mset p M) ps t" "cur < length ps" "ps ! cur = p"
    "searchChildren (heap t ! cur) (Some x) = Some c"
  shows "\<exists>n'. incrementCount (heap t ! c) = Inr n' \<and>
           tree_inv (add_mset (p @ [x]) M) ps (t\<lparr>heap := (heap t)[c := n']\<rparr>) \<and>
           c < length ps \<and> ps ! c = p @ [x]"
proof -
  from assms(1) have P: "paths_ok (add_mset p M) ps" and H: "heap_ok (add_mset p M) ps t"
    and L: "header_ok ps t" by (simp_all add: tree_inv_def)
  from search_found[OF P H assms(2,4)] assms(3) have c: "0 < c" "c < length ps" "ps ! c = p @ [x]"
    by simp_all
  then have "p @ [x] \<in> set ps" by (metis nth_mem)
  from paths_ok_found[OF P this] heap_ok_found[OF P H c] header_ok_found[OF L] c heap_okD(2)[OF H]
  show ?thesis by (simp add: tree_inv_def)
qed

lemma else_eq:
  assumes "cur < length (heap t)" "searchChildren (heap t ! cur) (Some x) = None"
  shows "addTransaction_else t cur x =
    (t\<lparr>heap := else_heap t cur x, header := else_header t x, nodesCount := nodesCount t + 1\<rparr>, length (heap t))"
  using assms
  by (simp add: addTransaction_else_def updateNodesCount_def addChild_def updateHeader_def FPNode_init_def
      searchChildren_def Let_def nth_append else_heap_def else_heap0_def else_header_def list_update_append
      split: option.split)

lemma else_heap_length: "length (else_heap t cur x) = length (heap t) + 1"
  by (simp add: else_heap_def else_heap0_def split: option.split)

lemma else_heap_old:
  assumes "n < length (heap t)" "cur < length (heap t)"
  shows "item (else_heap t cur x ! n) = item (heap t ! n)"
    "count_n (else_heap t cur x ! n) = count_n (heap t ! n)"
    "parent (else_heap t cur x ! n) = parent (heap t ! n)"
    "nodeID (else_heap t cur x ! n) = nodeID (heap t ! n)"
    "children (else_heap t cur x ! n) =
       children (heap t ! n) @ (if n = cur then [(Some x, length (heap t))] else [])"
  using assms
  by (auto simp add: else_heap_def else_heap0_def nth_append nth_list_update split: option.split)

lemma else_heap_new:
  assumes "cur < length (heap t)" "\<And>h. header t (Some x) = Some h \<Longrightarrow> snd h < length (heap t)"
  shows "else_heap t cur x ! length (heap t) =
           \<lparr>item = Some x, count_n = Some 1, parent = Some cur, children = [], neighbour = None,
            nodeID = nodesCount t + 1\<rparr>"
  using assms
  by (auto simp add: else_heap_def else_heap0_def nth_append nth_list_update split: option.split)

lemma else_heap_neighbour:
  assumes "n < length (heap t)" "cur < length (heap t)"
  shows "neighbour (else_heap t cur x ! n) =
     (case header t (Some x) of None \<Rightarrow> neighbour (heap t ! n)
      | Some h \<Rightarrow> if n = snd h then Some (length (heap t)) else neighbour (heap t ! n))"
  using assms
  by (auto simp add: else_heap_def else_heap0_def nth_append nth_list_update split: option.split)

lemma upt_snoc1: "0 < N \<Longrightarrow> [1..<N + 1] = [1..<N] @ [N]"
  by simp

lemma butlast_in_paths:
  assumes "paths_ok M ps" "c < length ps" "0 < c"
  shows "butlast (ps ! c) \<in> set ps"
proof -
  from paths_okD(5)[OF assms(1,3,2)] obtain p where "p < c" "ps ! p = butlast (ps ! c)" by blast
  with assms(2) show ?thesis by (metis nth_mem order.strict_trans)
qed

lemma kids_new:
  assumes P: "paths_ok M ps" and nin: "p @ [x] \<notin> set ps" and cur: "cur < length ps" "ps ! cur = p"
    and n: "n < length ps"
  shows "kids (ps @ [p @ [x]]) n = kids ps n @ (if n = cur then [length ps] else [])"
proof -
  have u: "[1..<length (ps @ [p @ [x]])] = [1..<length ps] @ [length ps]"
    using paths_okD(1)[OF P] by (cases ps) simp_all
  have old: "filter (\<lambda>c. butlast ((ps @ [p @ [x]]) ! c) = (ps @ [p @ [x]]) ! n) [1..<length ps] = kids ps n"
    using n unfolding kids_def by (intro filter_cong) (auto simp: nth_append)
  have new: "(butlast ((ps @ [p @ [x]]) ! length ps) = (ps @ [p @ [x]]) ! n) = (n = cur)"
  proof -
    have "(ps @ [p @ [x]]) ! n = ps ! n" using n by (simp add: nth_append)
    moreover have "butlast ((ps @ [p @ [x]]) ! length ps) = p" by simp
    moreover have "(p = ps ! n) = (n = cur)"
    proof
      assume "p = ps ! n"
      then have "ps ! n = ps ! cur" using cur(2) by simp
      then show "n = cur" by (rule paths_inj[OF P n cur(1)])
    next
      assume "n = cur"
      then show "p = ps ! n" using cur(2) by simp
    qed
    ultimately show ?thesis by (simp only:)
  qed
  show ?thesis
    unfolding kids_def[of "ps @ [p @ [x]]"] u filter_append old using new by simp
qed

lemma kids_new_last:
  assumes P: "paths_ok M ps" and nin: "p @ [x] \<notin> set ps"
  shows "kids (ps @ [p @ [x]]) (length ps) = []"
proof -
  have u: "[1..<length (ps @ [p @ [x]])] = [1..<length ps] @ [length ps]"
    using paths_okD(1)[OF P] by (cases ps) simp_all
  have "butlast (ps ! c) \<noteq> p @ [x]" if "c \<in> set [1..<length ps]" for c
    using butlast_in_paths[OF P, of c] that nin by auto
  then have "filter (\<lambda>c. butlast ((ps @ [p @ [x]]) ! c) = (ps @ [p @ [x]]) ! length ps) [1..<length ps] = []"
    by (auto simp: filter_empty_conv nth_append)
  then show ?thesis
    unfolding kids_def[of "ps @ [p @ [x]]"] u filter_append by simp
qed

lemma occs_new:
  assumes "ps \<noteq> []"
  shows "occs (ps @ [p @ [x]]) y = occs ps y @ (if x = y then [length ps] else [])"
proof -
  have u: "[1..<length (ps @ [p @ [x]])] = [1..<length ps] @ [length ps]"
    using assms by (cases ps) simp_all
  have old: "filter (\<lambda>n. last ((ps @ [p @ [x]]) ! n) = y) [1..<length ps] = occs ps y"
    unfolding occs_def by (intro filter_cong) (auto simp: nth_append)
  show ?thesis
    unfolding occs_def[of "ps @ [p @ [x]]"] u filter_append old by simp
qed

lemma kids_range: "c \<in> set (kids ps n) \<Longrightarrow> 0 < c \<and> c < length ps \<and> butlast (ps ! c) = ps ! n"
  by (auto simp: kids_def)

lemma occs_range: "n \<in> set (occs ps x) \<Longrightarrow> 0 < n \<and> n < length ps \<and> last (ps ! n) = x"
  by (auto simp: occs_def)

lemma distinct_kids: "distinct (kids ps n)" by (simp add: kids_def)

lemma distinct_occs: "distinct (occs ps x)" by (simp add: occs_def)

lemma heap_ok_new:
  assumes P: "paths_ok (add_mset p M) ps" and H: "heap_ok (add_mset p M) ps t"
    and cur: "cur < length ps" "ps ! cur = p" and nin: "p @ [x] \<notin> set ps"
    and hd: "\<And>h. header t (Some x) = Some h \<Longrightarrow> snd h < length ps"
  shows "heap_ok (add_mset (p @ [x]) M) (ps @ [p @ [x]])
           (t\<lparr>heap := else_heap t cur x, header := else_header t x, nodesCount := nodesCount t + 1\<rparr>)"
    (is "heap_ok ?M ?ps ?t")
proof (rule heap_okI)
  note D = heap_okD[OF H]
  note PD = paths_okD[OF P]
  have N: "length (heap t) = length ps" by (rule D(2))
  have curh: "cur < length (heap t)" using cur N by simp
  have newnode: "else_heap t cur x ! length ps =
           \<lparr>item = Some x, count_n = Some 1, parent = Some cur, children = [], neighbour = None,
            nodeID = nodesCount t + 1\<rparr>"
    using else_heap_new[of cur t x] cur hd N by simp
  show "root ?t = 0" using D(1) by simp
  show "length (heap ?t) = length ?ps" using N by (simp add: else_heap_length)
  show "nodesCount ?t + 1 = length ?ps" using D(3) by simp
  have zero: "cnt M (p @ [x]) = 0"
  proof -
    have "\<not> prefix (p @ [x]) q" if "q \<in># M" for q
      using PD(7)[of q "p @ [x]"] that nin by auto
    then show ?thesis by (simp add: cnt_def)
  qed
  {
    fix n assume n: "0 < n" "n < length ?ps"
    show "\<exists>p'<n. parent (heap ?t ! n) = Some p' \<and> ?ps ! p' = butlast (?ps ! n)"
    proof (cases "n < length ps")
      case True
      from D(4)[OF n(1) True] obtain p' where "p' < n" "parent (heap t ! n) = Some p'" "ps ! p' = butlast (ps ! n)"
        by blast
      with True N curh show ?thesis
        by (intro exI[of _ p']) (simp add: else_heap_old nth_append)
    next
      case False
      with n have "n = length ps" by simp
      with cur newnode show ?thesis by (intro exI[of _ cur]) (simp add: nth_append)
    qed
    show "item (heap ?t ! n) = Some (last (?ps ! n))"
    proof (cases "n < length ps")
      case True
      with D(5)[OF n(1) True] N curh show ?thesis by (simp add: else_heap_old nth_append)
    next
      case False
      with n have "n = length ps" by simp
      with newnode show ?thesis by (simp add: nth_append)
    qed
    show "count_n (heap ?t ! n) = Some (cnt ?M (?ps ! n))"
    proof (cases "n < length ps")
      case True
      then have "ps ! n \<noteq> p @ [x]" using nin by (metis nth_mem)
      with D(6)[OF n(1) True] N True curh show ?thesis by (simp add: else_heap_old nth_append cnt_step)
    next
      case False
      with n have "n = length ps" by simp
      with newnode zero show ?thesis by (simp add: nth_append cnt_add)
    qed
  }
  {
    fix n assume n: "n < length ?ps"
    show "nodeID (heap ?t ! n) = n"
    proof (cases "n < length ps")
      case True
      with D(7)[OF True] N curh show ?thesis by (simp add: else_heap_old)
    next
      case False
      with n have "n = length ps" by simp
      with newnode D(3) show ?thesis by simp
    qed
    have m: "map (\<lambda>c. (Some (last (?ps ! c)), c)) (kids ps n) = map (\<lambda>c. (Some (last (ps ! c)), c)) (kids ps n)"
    proof (rule map_cong[OF refl])
      fix c assume "c \<in> set (kids ps n)"
      then have "c < length ps" by (simp add: kids_def)
      then show "(Some (last (?ps ! c)), c) = (Some (last (ps ! c)), c)" by (simp add: nth_append)
    qed
    show "children (heap ?t ! n) = map (\<lambda>c. (Some (last (?ps ! c)), c)) (kids ?ps n)"
    proof (cases "n < length ps")
      case True
      have "children (heap ?t ! n) = children (heap t ! n) @ (if n = cur then [(Some x, length ps)] else [])"
        using True N curh by (simp add: else_heap_old)
      moreover have "map (\<lambda>c. (Some (last (?ps ! c)), c)) (kids ?ps n) =
          map (\<lambda>c. (Some (last (ps ! c)), c)) (kids ps n) @ (if n = cur then [(Some x, length ps)] else [])"
        unfolding kids_new[OF P nin cur True] map_append m by (simp add: nth_append)
      ultimately show ?thesis using D(8)[OF True] by (simp only:)
    next
      case False
      with n have e: "n = length ps" by simp
      with newnode show ?thesis by (simp add: kids_new_last[OF P nin])
    qed
  }
qed

lemma linked_None: "linked h None ns \<Longrightarrow> ns = []"
  by (cases ns) auto

lemma linked_Some: "linked h (Some a) ns \<Longrightarrow> ns \<noteq> [] \<and> hd ns = a"
  by (cases ns) auto

lemma linked_snoc:
  assumes "linked h X ns" "ns \<noteq> []"
    "\<And>n. n \<in> set (butlast ns) \<Longrightarrow> neighbour (h' ! n) = neighbour (h ! n)"
    "neighbour (h' ! last ns) = Some a" "neighbour (h' ! a) = None"
  shows "linked h' X (ns @ [a])"
  using assms
proof (induction ns arbitrary: X)
  case Nil
  then show ?case by simp
next
  case (Cons n ns)
  show ?case
  proof (cases "ns = []")
    case True
    with Cons.prems show ?thesis by simp
  next
    case False
    from Cons.prems(1) have X: "X = Some n" and l: "linked h (neighbour (h ! n)) ns" by simp_all
    have "linked h' (neighbour (h ! n)) (ns @ [a])"
    proof (rule Cons.IH[OF l False])
      fix m assume "m \<in> set (butlast ns)"
      then show "neighbour (h' ! m) = neighbour (h ! m)" using Cons.prems(3)[of m] False by simp
    next
      show "neighbour (h' ! last ns) = Some a" using Cons.prems(4) False by simp
      show "neighbour (h' ! a) = None" by (rule Cons.prems(5))
    qed
    moreover have "neighbour (h' ! n) = neighbour (h ! n)" using Cons.prems(3)[of n] False by simp
    ultimately show ?thesis using X by simp
  qed
qed

lemma header_okD:
  assumes "header_ok ps t"
  shows "header t None = None"
    "linked (heap t) (map_option fst (header t (Some x))) (occs ps x)"
    "header t (Some x) = Some h \<Longrightarrow> snd h = last (occs ps x)"
  using assms unfolding header_ok_def by (simp_all, cases h, simp)

lemma header_Some_occs:
  assumes "header_ok ps t" "header t (Some x) = Some h"
  shows "occs ps x \<noteq> []" "snd h = last (occs ps x)" "snd h \<in> set (occs ps x)"
proof -
  from header_okD(2)[OF assms(1), of x] assms(2) show ne: "occs ps x \<noteq> []"
    by (auto dest: linked_Some)
  show l: "snd h = last (occs ps x)" by (rule header_okD(3)[OF assms])
  from ne l show "snd h \<in> set (occs ps x)" by simp
qed

lemma header_None_occs:
  assumes "header_ok ps t" "header t (Some x) = None"
  shows "occs ps x = []"
  using header_okD(2)[OF assms(1), of x] assms(2) by (auto dest: linked_None)

lemma header_ok_new:
  assumes L: "header_ok ps t" and N: "length (heap t) = length ps" and ne: "ps \<noteq> []"
    and cur: "cur < length ps"
  shows "header_ok (ps @ [p @ [x]])
           (t\<lparr>heap := else_heap t cur x, header := else_header t x, nodesCount := nodesCount t + 1\<rparr>)"
    (is "header_ok ?ps ?t")
  unfolding header_ok_def
proof (intro conjI allI impI)
  have curh: "cur < length (heap t)" using cur N by simp
  have tl: "snd h < length (heap t)" if "header t (Some x) = Some h" for h
    using header_Some_occs(3)[OF L that] N by (auto dest: occs_range)
  have newnb: "neighbour (else_heap t cur x ! length ps) = None"
    using else_heap_new[OF curh tl] N by simp
  show "header ?t None = None" using header_okD(1)[OF L] by (simp add: else_header_def)
  fix y
  show "linked (heap ?t) (map_option fst (header ?t (Some y))) (occs ?ps y)"
  proof (cases "y = x")
    case False
    have "linked (else_heap t cur x) X (occs ps y) = linked (heap t) X (occs ps y)" for X
    proof (rule linked_cong)
      fix n assume n: "n \<in> set (occs ps y)"
      then have nl: "n < length (heap t)" "last (ps ! n) = y" using N by (auto dest: occs_range)
      have "n \<noteq> snd h" if "header t (Some x) = Some h" for h
        using header_Some_occs(3)[OF L that] nl(2) False by (auto dest: occs_range)
      then show "neighbour (else_heap t cur x ! n) = neighbour (heap t ! n)"
        using else_heap_neighbour[OF nl(1) curh, of x] by (auto split: option.split)
    qed
    with False header_okD(2)[OF L, of y] show ?thesis
      by (simp add: occs_new[OF ne] else_header_def)
  next
    case True
    show ?thesis
    proof (cases "header t (Some x)")
      case None
      from header_None_occs[OF L None] True None newnb show ?thesis
        by (simp add: occs_new[OF ne] else_header_def N)
    next
      case (Some h)
      note O = header_Some_occs[OF L Some]
      from header_okD(2)[OF L, of x] Some have l: "linked (heap t) (Some (fst h)) (occs ps x)" by simp
      have "linked (else_heap t cur x) (Some (fst h)) (occs ps x @ [length ps])"
      proof (rule linked_snoc[OF l O(1)])
        fix n assume n: "n \<in> set (butlast (occs ps x))"
        then have "n \<in> set (occs ps x)" by (rule in_set_butlastD)
        then have nl: "n < length (heap t)" using N by (auto dest: occs_range)
        from n have "n \<noteq> last (occs ps x)"
          using distinct_occs[of ps x] O(1)
          by (metis append_butlast_last_id distinct_append disjoint_iff list.set_intros(1))
        with O(2) have "n \<noteq> snd h" by simp
        then show "neighbour (else_heap t cur x ! n) = neighbour (heap t ! n)"
          using else_heap_neighbour[OF nl curh, of x] Some by simp
      next
        have "snd h < length (heap t)" by (rule tl[OF Some])
        from else_heap_neighbour[OF this curh, of x] Some O(2) N
        show "neighbour (else_heap t cur x ! last (occs ps x)) = Some (length ps)" by simp
        show "neighbour (else_heap t cur x ! length ps) = None" by (rule newnb)
      qed
      with True Some show ?thesis by (simp add: occs_new[OF ne] else_header_def)
    qed
  qed
  fix h assume h: "header ?t (Some y) = Some h"
  show "snd h = last (occs ?ps y)"
  proof (cases "y = x")
    case False
    with h header_okD(3)[OF L, of y h] show ?thesis by (simp add: occs_new[OF ne] else_header_def)
  next
    case True
    with h N show ?thesis by (auto simp add: occs_new[OF ne] else_header_def split: option.splits)
  qed
qed

lemma step_new:
  assumes I: "tree_inv (add_mset p M) ps t" and cur: "cur < length ps" "ps ! cur = p"
    and s: "searchChildren (heap t ! cur) (Some x) = None"
  shows "\<exists>t'. addTransaction_else t cur x = (t', length ps) \<and>
           tree_inv (add_mset (p @ [x]) M) (ps @ [p @ [x]]) t'"
proof -
  from I have P: "paths_ok (add_mset p M) ps" and H: "heap_ok (add_mset p M) ps t"
    and L: "header_ok ps t" by (simp_all add: tree_inv_def)
  have N: "length (heap t) = length ps" by (rule heap_okD(2)[OF H])
  from search_none[OF P H cur(1) s] cur(2) have nin: "p @ [x] \<notin> set ps" by simp
  have tl: "snd h < length ps" if "header t (Some x) = Some h" for h
    using header_Some_occs(3)[OF L that] by (auto dest: occs_range)
  have e: "addTransaction_else t cur x =
     (t\<lparr>heap := else_heap t cur x, header := else_header t x, nodesCount := nodesCount t + 1\<rparr>, length ps)"
    using else_eq[of cur t x] cur(1) s N by simp
  from paths_ok_new[OF P nin cur] heap_ok_new[OF P H cur nin tl] header_ok_new[OF L N paths_okD(1)[OF P] cur(1)] e
  show ?thesis by (simp add: tree_inv_def)
qed

lemma addTransaction_loop_inv:
  assumes "tree_inv (add_mset p M) ps t" "cur < length ps" "ps ! cur = p"
  shows "\<exists>t' ps'. addTransaction_loop t cur xs = Inr t' \<and> tree_inv (add_mset (p @ xs) M) ps' t'"
  using assms
proof (induction xs arbitrary: t cur p ps)
  case Nil
  then show ?case by auto
next
  case (Cons x xs)
  show ?case
  proof (cases "searchChildren (heap t ! cur) (Some x)")
    case None
    from step_new[OF Cons.prems None] obtain t' where
      t': "addTransaction_else t cur x = (t', length ps)" "tree_inv (add_mset (p @ [x]) M) (ps @ [p @ [x]]) t'"
      by blast
    from Cons.IH[OF t'(2), of "length ps"] obtain t'' ps'' where
      "addTransaction_loop t' (length ps) xs = Inr t''" "tree_inv (add_mset ((p @ [x]) @ xs) M) ps'' t''"
      by auto
    with None t'(1) show ?thesis by auto
  next
    case (Some c)
    from step_found[OF Cons.prems Some] obtain n' where
      n': "incrementCount (heap t ! c) = Inr n'" "tree_inv (add_mset (p @ [x]) M) ps (t\<lparr>heap := (heap t)[c := n']\<rparr>)"
        "c < length ps" "ps ! c = p @ [x]"
      by blast
    from Cons.IH[OF n'(2,3,4)] obtain t'' ps'' where
      "addTransaction_loop (t\<lparr>heap := (heap t)[c := n']\<rparr>) c xs = Inr t''" "tree_inv (add_mset ((p @ [x]) @ xs) M) ps'' t''"
      by auto
    with Some n'(1) show ?thesis by auto
  qed
qed

lemma addTransaction_inv:
  assumes "tree_inv M ps t"
  shows "\<exists>t' ps'. addTransaction t tr = Inr t' \<and> tree_inv (add_mset tr M) ps' t'"
proof -
  from assms have r: "root t = 0" "0 < length ps" "ps ! 0 = []"
    by (auto simp: tree_inv_def heap_ok_def paths_ok_def)
  from addTransaction_loop_inv[OF tree_inv_start[OF assms] r(2,3), of tr] r(1)
  show ?thesis by (simp add: addTransaction_def)
qed

lemma buildFPTree_loop_inv:
  assumes "tree_inv M ps t"
  shows "\<exists>t' ps'. buildFPTree_loop t ts = Inr t' \<and> tree_inv (M + mset ts) ps' t'"
  using assms
proof (induction ts arbitrary: t ps M)
  case Nil
  then show ?case by auto
next
  case (Cons tr ts)
  from addTransaction_inv[OF Cons.prems, of tr] obtain t' ps' where
    t': "addTransaction t tr = Inr t'" "tree_inv (add_mset tr M) ps' t'" by blast
  from Cons.IH[OF t'(2)] t'(1) show ?case by auto
qed

lemma buildFPTree_inv: "\<exists>t ps. buildFPTree ts = Inr t \<and> tree_inv (mset ts) ps t"
  using buildFPTree_loop_inv[OF tree_inv_init, of ts] by (simp add: buildFPTree_def)

lemma sum_list_if_length: "sum_list (map (\<lambda>n. if P n then 1 else 0) L) = length (filter P L)"
  by (induction L) auto

lemma sum_size_filter:
  assumes "\<And>q. q \<in># M \<Longrightarrow> length (filter (\<lambda>n. G n q) L) = (if H q then 1 else 0)"
  shows "sum_list (map (\<lambda>n. size (filter_mset (G n) M)) L) = size (filter_mset H M)"
  using assms
proof (induction M)
  case empty
  then show ?case by simp
next
  case (add q M)
  have "sum_list (map (\<lambda>n. size (filter_mset (G n) (add_mset q M))) L) =
        sum_list (map (\<lambda>n. (if G n q then 1 else 0) + size (filter_mset (G n) M)) L)"
    by (intro arg_cong[where f = sum_list] map_cong) auto
  also have "\<dots> = length (filter (\<lambda>n. G n q) L) + sum_list (map (\<lambda>n. size (filter_mset (G n) M)) L)"
    by (simp add: sum_list_addf sum_list_if_length)
  also have "\<dots> = (if H q then 1 else 0) + size (filter_mset H M)"
    using add.IH add.prems by simp
  finally show ?case by simp
qed

lemma filter_unique:
  assumes "distinct xs" "c \<in> set xs" "\<And>y. y \<in> set xs \<Longrightarrow> P y \<longleftrightarrow> y = c"
  shows "filter P xs = [c]"
  using assms
proof (induction xs)
  case Nil
  then show ?case by simp
next
  case (Cons a xs)
  show ?case
  proof (cases "a = c")
    case True
    with Cons.prems have "\<And>y. y \<in> set xs \<Longrightarrow> \<not> P y" by auto
    then have "filter P xs = []" by (simp add: filter_empty_conv)
    with True Cons.prems(3)[of a] show ?thesis by simp
  next
    case False
    with Cons.prems have "filter P xs = [c]" by (intro Cons.IH) auto
    with False Cons.prems(3)[of a] show ?thesis by simp
  qed
qed

lemma snoc_prefix_take:
  assumes "prefix (u @ [y]) q"
  shows "u @ [y] = take (Suc (length u)) q"
  using assms by (auto simp: prefix_def)

lemma kids_filter_prefix:
  assumes P: "paths_ok M ps" and n: "n < length ps" and cl: "\<And>r. prefix r q \<Longrightarrow> r \<in> set ps"
  shows "strict_prefix (ps ! n) q \<Longrightarrow>
           \<exists>c. filter (\<lambda>c. prefix (ps ! c) q) (kids ps n) = [c] \<and> 0 < c \<and> c < length ps \<and>
               ps ! c = take (Suc (length (ps ! n))) q"
    and "\<not> strict_prefix (ps ! n) q \<Longrightarrow> filter (\<lambda>c. prefix (ps ! c) q) (kids ps n) = []"
proof -
  have k: "ps ! c = ps ! n @ [last (ps ! c)]" if "c \<in> set (kids ps n)" for c
  proof -
    from that have c: "0 < c" "c < length ps" "butlast (ps ! c) = ps ! n" by (auto dest: kids_range)
    with paths_okD(4)[OF P c(1,2)] show ?thesis by (metis append_butlast_last_id)
  qed
  {
    assume "\<not> strict_prefix (ps ! n) q"
    moreover have "strict_prefix (ps ! n) q" if "c \<in> set (kids ps n)" "prefix (ps ! c) q" for c
      using k[OF that(1)] that(2) by (metis prefix_order.le_less_trans prefix_snoc strict_prefixI' prefix_order.order_refl Sublist.strict_prefix_def prefix_order.dual_order.strict_trans1)
    ultimately show "filter (\<lambda>c. prefix (ps ! c) q) (kids ps n) = []"
      by (auto simp: filter_empty_conv)
  }
  {
    assume s: "strict_prefix (ps ! n) q"
    let ?r = "take (Suc (length (ps ! n))) q"
    from s obtain y zs where q: "q = ps ! n @ y # zs" by (auto simp: strict_prefix_def prefix_def) (metis list.exhaust append_Nil2)
    then have r: "?r = ps ! n @ [y]" by simp
    have "prefix ?r q" by (rule take_is_prefix)
    from cl[OF this] obtain c where c: "c < length ps" "ps ! c = ?r" by (auto simp: in_set_conv_nth)
    with r paths_okD(2)[OF P] have c0: "0 < c" by (cases c) auto
    from c r have "butlast (ps ! c) = ps ! n" by simp
    with c c0 have ck: "c \<in> set (kids ps n)" by (simp add: kids_def)
    have "filter (\<lambda>c. prefix (ps ! c) q) (kids ps n) = [c]"
    proof (rule filter_unique[OF distinct_kids ck])
      fix c' assume c': "c' \<in> set (kids ps n)"
      show "prefix (ps ! c') q \<longleftrightarrow> c' = c"
      proof
        assume "prefix (ps ! c') q"
        with k[OF c'] have "prefix (ps ! n @ [last (ps ! c')]) q" by simp
        from snoc_prefix_take[OF this] k[OF c'] c(2) have "ps ! c' = ps ! c" by simp
        moreover from c' have "c' < length ps" by (auto dest: kids_range)
        ultimately show "c' = c" using paths_inj[OF P _ c(1)] by blast
      next
        assume "c' = c"
        with c(2) show "prefix (ps ! c') q" by (simp add: take_is_prefix)
      qed
    qed
    with c c0 show "\<exists>c. filter (\<lambda>c. prefix (ps ! c) q) (kids ps n) = [c] \<and> 0 < c \<and> c < length ps \<and> ps ! c = ?r"
      by blast
  }
qed

lemma sum_counts_Some: "sum_counts (map (\<lambda>c. Some (f c)) L) = Inr (sum_list (map f L))"
  by (induction L) auto

lemma tree_invD:
  assumes "tree_inv M ps t"
  shows "paths_ok M ps" "heap_ok M ps t" "header_ok ps t"
  using assms by (simp_all add: tree_inv_def)

lemma size_filter_mset_list: "size (filter_mset P (mset xs)) = length (filter P xs)"
  by (induction xs) auto

lemma kids_counts:
  assumes I: "tree_inv M ps t" and n: "n < length ps"
  shows "map (\<lambda>c. count_n (heap t ! c)) (map snd (children (heap t ! n))) =
         map (\<lambda>c. Some (cnt M (ps ! c))) (kids ps n)"
proof -
  note H = heap_okD[OF tree_invD(2)[OF I]]
  have "map snd (children (heap t ! n)) = kids ps n"
    unfolding H(8)[OF n] by (simp add: comp_def)
  moreover have "map (\<lambda>c. count_n (heap t ! c)) (kids ps n) = map (\<lambda>c. Some (cnt M (ps ! c))) (kids ps n)"
  proof (rule map_cong[OF refl])
    fix c assume "c \<in> set (kids ps n)"
    then have "0 < c" "c < length ps" by (auto dest: kids_range)
    then show "count_n (heap t ! c) = Some (cnt M (ps ! c))" by (rule H(6))
  qed
  ultimately show ?thesis by simp
qed

lemma root_counts_inv:
  assumes I: "tree_inv M ps t"
  shows "rootChildCountSum t = Inr (size (filter_mset (\<lambda>q. q \<noteq> []) M))"
proof -
  note P = tree_invD(1)[OF I]
  note H = heap_okD[OF tree_invD(2)[OF I]]
  have z: "0 < length ps" "ps ! 0 = []" using paths_okD(1,2)[OF P] by simp_all
  have per: "length (filter (\<lambda>c. prefix (ps ! c) q) (kids ps 0)) = (if q \<noteq> [] then 1 else 0)"
    if "q \<in># M" for q
  proof (cases "q = []")
    case True
    then have "\<not> strict_prefix (ps ! 0) q" by (simp add: strict_prefix_def)
    from kids_filter_prefix(2)[OF P z(1) _ this] paths_okD(7)[OF P that] True show ?thesis by simp
  next
    case False
    then have "strict_prefix (ps ! 0) q" using z(2) by (simp add: strict_prefix_def)
    from kids_filter_prefix(1)[OF P z(1) _ this] paths_okD(7)[OF P that] False show ?thesis by auto
  qed
  have "sum_list (map (\<lambda>c. cnt M (ps ! c)) (kids ps 0)) = size (filter_mset (\<lambda>q. q \<noteq> []) M)"
    unfolding cnt_def by (rule sum_size_filter) (rule per)
  then show ?thesis
    unfolding rootChildCountSum_def H(1) kids_counts[OF I z(1)] by (simp add: sum_counts_Some)
qed

lemma list_index_Inr: "list_index xs a = Inr m \<Longrightarrow> m < length xs \<and> xs ! m = a"
proof (induction xs arbitrary: m)
  case Nil
  then show ?case by simp
next
  case (Cons x xs)
  show ?case
  proof (cases "x = a")
    case True
    with Cons.prems show ?thesis by simp
  next
    case False
    show ?thesis
    proof (cases "list_index xs a")
      case (Inl e)
      with False Cons.prems show ?thesis by simp
    next
      case (Inr n)
      with False Cons.prems have "m = Suc n" by simp
      with Cons.IH[OF Inr] show ?thesis by simp
    qed
  qed
qed

lemma list_index_mem: "a \<in> set xs \<Longrightarrow> \<exists>m. list_index xs a = Inr m"
  by (induction xs) auto

lemma list_index_notmem: "a \<notin> set xs \<Longrightarrow> list_index xs a = Inl ValueError"
  by (induction xs) auto

lemma precedes_iff:
  "precedes ord a b \<longleftrightarrow> (\<exists>m n. list_index ord a = Inr m \<and> list_index ord b = Inr n \<and> m < n)"
  unfolding precedes_def by (cases "list_index ord a"; cases "list_index ord b") simp_all

lemma precedes_irrefl: "\<not> precedes ord a a"
  by (simp add: precedes_iff)

lemma precedes_trans: "precedes ord a b \<Longrightarrow> precedes ord b c \<Longrightarrow> precedes ord a c"
  unfolding precedes_iff by force

lemma precedes_asym: "precedes ord a b \<Longrightarrow> \<not> precedes ord b a"
  unfolding precedes_iff by force

lemma canonical_Nil: "canonical ord []"
  by (simp add: canonical_def)

lemma canonical_prefix: "canonical ord q \<Longrightarrow> prefix p q \<Longrightarrow> canonical ord p"
  by (auto simp: canonical_def prefix_def sorted_wrt_append)

lemma canonical_butlast: "canonical ord q \<Longrightarrow> canonical ord (butlast q)"
  by (rule canonical_prefix[OF _ prefixeq_butlast])

lemma canonical_last:
  assumes "canonical ord xs" "z \<in> set (butlast xs)"
  shows "precedes ord z (last xs)"
proof -
  from assms(2) have "xs \<noteq> []" by auto
  then have "xs = butlast xs @ [last xs]" by simp
  with assms(1) have "sorted_wrt (precedes ord) (butlast xs @ [last xs])" by (simp add: canonical_def)
  with assms(2) show ?thesis by (simp add: sorted_wrt_append)
qed

lemma canonical_nth:
  assumes "canonical ord xs" "i < j" "j < length xs"
  shows "precedes ord (xs ! i) (xs ! j)"
  using assms by (simp add: canonical_def sorted_wrt_iff_nth_less)

lemma canonical_mem: "canonical ord xs \<Longrightarrow> x \<in> set xs \<Longrightarrow> x \<in> set ord"
  by (auto simp: canonical_def)

lemma paths_canonical:
  assumes P: "paths_ok M ps" and C: "\<And>q. q \<in># M \<Longrightarrow> canonical ord q" and n: "n < length ps"
  shows "canonical ord (ps ! n)"
proof (cases "n = 0")
  case True
  with paths_okD(2)[OF P] show ?thesis by (simp add: canonical_Nil)
next
  case False
  with paths_okD(6)[OF P _ n] obtain q where "q \<in># M" "prefix (ps ! n) q" by auto
  with C show ?thesis by (auto intro: canonical_prefix)
qed

lemma checkPath_while_spec:
  assumes I: "tree_inv M ps t" and C: "\<And>n. n < length ps \<Longrightarrow> canonical ord (ps ! n)"
    and g: "list_get itemList i = Inr target" and tin: "target \<in> set ord"
  shows "Y < length ps \<Longrightarrow>
         checkPath_while itemList i t ord (Some Y) = Some (Inr (target \<in> set (ps ! Y)))"
proof (induction Y rule: less_induct)
  case (less Y)
  note P = paths_okD[OF tree_invD(1)[OF I]]
  note H = heap_okD[OF tree_invD(2)[OF I]]
  show ?case
  proof (cases "Y = 0")
    case True
    with H(1) P(2) show ?thesis by (subst checkPath_while.simps) simp
  next
    case False
    then have Y: "0 < Y" by simp
    from H(4)[OF Y less.prems] obtain p where p: "p < Y" "parent (heap t ! Y) = Some p" "ps ! p = butlast (ps ! Y)"
      by blast
    have ne: "ps ! Y \<noteq> []" by (rule P(4)[OF Y less.prems])
    have it: "item (heap t ! Y) = Some (last (ps ! Y))" by (rule H(5)[OF Y less.prems])
    have cY: "canonical ord (ps ! Y)" by (rule C[OF less.prems])
    from ne have lin: "last (ps ! Y) \<in> set (ps ! Y)" by simp
    with cY have "last (ps ! Y) \<in> set ord" by (rule canonical_mem)
    then obtain iy where iy: "list_index ord (last (ps ! Y)) = Inr iy" by (auto dest: list_index_mem)
    from tin obtain it' where it': "list_index ord target = Inr it'" by (auto dest: list_index_mem)
    have "set (butlast (ps ! Y) @ [last (ps ! Y)]) = insert (last (ps ! Y)) (set (butlast (ps ! Y)))"
      by simp
    then have split: "set (ps ! Y) = insert (last (ps ! Y)) (set (butlast (ps ! Y)))"
      using ne by simp
    have unf: "checkPath_while itemList i t ord (Some Y) =
        (if last (ps ! Y) = target then Some (Inr True)
         else if iy < it' then Some (Inr False)
         else checkPath_while itemList i t ord (Some p))"
      using False H(1) g it iy it' p(2)
      by (subst checkPath_while.simps) (simp add: index_item_def)
    show ?thesis
    proof (cases "last (ps ! Y) = target")
      case True
      with unf lin show ?thesis by simp
    next
      case neq: False
      show ?thesis
      proof (cases "iy < it'")
        case True
        have "target \<notin> set (butlast (ps ! Y))"
        proof
          assume "target \<in> set (butlast (ps ! Y))"
          from canonical_last[OF cY this] iy it' have "it' < iy" by (simp add: precedes_iff)
          with True show False by simp
        qed
        with unf neq True split show ?thesis by auto
      next
        case False
        from p(1) less.prems have "p < length ps" by simp
        from less.IH[OF p(1) this] unf neq False split p(3) show ?thesis by auto
      qed
    qed
  qed
qed

lemma list_get_nat: "i < length xs \<Longrightarrow> list_get xs (int i) = Inr (xs ! i)"
  by (simp add: list_get_def)

lemma checkPath_spec:
  assumes I: "tree_inv M ps t" and C: "\<And>n. n < length ps \<Longrightarrow> canonical ord (ps ! n)"
    and X: "0 < X" "X < length ps" and il: "set itemList \<subseteq> set ord"
  shows "k \<le> length itemList \<Longrightarrow>
         checkPath itemList (int k - 1) X t ord =
           Some (Inr (\<exists>j<k. itemList ! j \<in> set (butlast (ps ! X))))"
proof (induction k)
  case 0
  show ?case by (subst checkPath.simps) simp
next
  case (Suc k)
  note H = heap_okD[OF tree_invD(2)[OF I]]
  from H(4)[OF X] obtain p where p: "p < X" "parent (heap t ! X) = Some p" "ps ! p = butlast (ps ! X)"
    by blast
  from p(1) X(2) have pl: "p < length ps" by simp
  from Suc.prems have kl: "k < length itemList" by simp
  then have "itemList ! k \<in> set ord" using il by auto
  from checkPath_while_spec[OF I C list_get_nat[OF kl] this pl] p(3)
  have w: "checkPath_while itemList (int k) t ord (Some p) = Some (Inr (itemList ! k \<in> set (butlast (ps ! X))))"
    by simp
  have e: "int (Suc k) - 1 = int k" by simp
  have "checkPath itemList (int k) X t ord =
      (if itemList ! k \<in> set (butlast (ps ! X)) then Some (Inr True)
       else checkPath itemList (int k - 1) X t ord)"
    by (subst checkPath.simps) (simp add: p(2) w)
  also have "\<dots> = Some (Inr (\<exists>j<Suc k. itemList ! j \<in> set (butlast (ps ! X))))"
    using Suc.IH kl by (auto simp: less_Suc_eq)
  finally show ?case unfolding e .
qed

lemma findSupport_while_spec:
  assumes I: "tree_inv M ps t" and C: "\<And>n. n < length ps \<Longrightarrow> canonical ord (ps ! n)"
    and k: "k \<le> length newList" and il: "set newList \<subseteq> set ord"
  shows "linked (heap t) X ns \<Longrightarrow> (\<And>n. n \<in> set ns \<Longrightarrow> 0 < n \<and> n < length ps) \<Longrightarrow>
         findSupport_while newList (int k) t ord X s =
           Some (Inr (s + sum_list (map (\<lambda>n. cnt M (ps ! n))
              (filter (\<lambda>n. \<not> (\<exists>j<k. newList ! j \<in> set (butlast (ps ! n)))) ns))))"
proof (induction ns arbitrary: X s)
  case Nil
  then show ?case by (subst findSupport_while.simps) simp
next
  case (Cons n ns)
  note H = heap_okD[OF tree_invD(2)[OF I]]
  from Cons.prems(1) have X: "X = Some n" and l: "linked (heap t) (neighbour (heap t ! n)) ns" by simp_all
  from Cons.prems(2)[of n] have n: "0 < n" "n < length ps" by simp_all
  have c: "count_n (heap t ! n) = Some (cnt M (ps ! n))" by (rule H(6)[OF n])
  note cp = checkPath_spec[OF I C n il k]
  have r: "\<And>s'. findSupport_while newList (int k) t ord (neighbour (heap t ! n)) s' =
       Some (Inr (s' + sum_list (map (\<lambda>n. cnt M (ps ! n))
              (filter (\<lambda>n. \<not> (\<exists>j<k. newList ! j \<in> set (butlast (ps ! n)))) ns))))"
    by (rule Cons.IH[OF l]) (simp add: Cons.prems(2))
  show ?case
    unfolding X by (subst findSupport_while.simps) (auto simp add: cp c r)
qed

lemma findSupport_for_spec:
  assumes I: "tree_inv M ps t" and C: "\<And>n. n < length ps \<Longrightarrow> canonical ord (ps ! n)"
    and il: "set newList \<subseteq> set ord"
  shows "\<forall>k\<in>set ks. k < length newList \<Longrightarrow>
         findSupport_for newList t ord ks s =
           Some (if \<forall>k\<in>set ks. header t (Some (newList ! k)) \<noteq> None
                 then Inr (s + sum_list (map (contrib M ps newList) ks))
                 else Inl KeyError)"
proof (induction ks arbitrary: s)
  case Nil
  show ?case by simp
next
  case (Cons k ks)
  note L = tree_invD(3)[OF I]
  have kl: "k \<le> length newList" using Cons.prems by simp
  have ks: "\<forall>k\<in>set ks. k < length newList" using Cons.prems by simp
  have r: "\<And>s'. findSupport_for newList t ord ks s' =
           Some (if \<forall>k\<in>set ks. header t (Some (newList ! k)) \<noteq> None
                 then Inr (s' + sum_list (map (contrib M ps newList) ks))
                 else Inl KeyError)"
    by (rule Cons.IH[OF ks])
  show ?case
  proof (cases "header t (Some (newList ! k))")
    case None
    then show ?thesis by simp
  next
    case (Some h)
    from header_okD(2)[OF L, of "newList ! k"] Some
    have l: "linked (heap t) (Some (fst h)) (occs ps (newList ! k))" by simp
    have "findSupport_while newList (int k) t ord (Some (fst h)) s =
        Some (Inr (s + contrib M ps newList k))"
      unfolding contrib_def
      by (rule findSupport_while_spec[OF I C kl il l]) (auto dest: occs_range)
    with Some r show ?thesis by simp
  qed
qed

lemma first_hit_takeWhile:
  assumes "q = w @ x # rest" "\<forall>y\<in>set w. y \<notin> S" "x \<in> S"
  shows "takeWhile (\<lambda>y. y \<notin> S) q = w" "dropWhile (\<lambda>y. y \<notin> S) q = x # rest"
  using assms by (simp_all add: takeWhile_append2 dropWhile_append2)

lemma first_hit_unique:
  assumes "first_hit S x q" "first_hit S x' q" "x \<in> S" "x' \<in> S"
  shows "x = x'"
proof -
  from assms(1) obtain w rest where a: "q = w @ x # rest" "\<forall>y\<in>set w. y \<notin> S"
    unfolding first_hit_def by blast
  from assms(2) obtain w' rest' where b: "q = w' @ x' # rest'" "\<forall>y\<in>set w'. y \<notin> S"
    unfolding first_hit_def by blast
  from first_hit_takeWhile(2)[OF a assms(3)] first_hit_takeWhile(2)[OF b assms(4)]
  show ?thesis by simp
qed

lemma first_hit_exists:
  assumes "\<exists>y\<in>set q. y \<in> S"
  shows "\<exists>x\<in>S. first_hit S x q"
proof -
  let ?d = "dropWhile (\<lambda>y. y \<notin> S) q"
  from assms have "?d \<noteq> []" by (auto simp: dropWhile_eq_Nil_conv)
  then obtain x rest where d: "?d = x # rest" by (cases ?d) auto
  then have "x \<in> S" using hd_dropWhile[of "\<lambda>y. y \<notin> S" q] by auto
  moreover have "q = takeWhile (\<lambda>y. y \<notin> S) q @ x # rest"
    using d takeWhile_dropWhile_id[of "\<lambda>y. y \<notin> S" q] by simp
  moreover have "\<forall>y\<in>set (takeWhile (\<lambda>y. y \<notin> S) q). y \<notin> S"
    by (auto dest: set_takeWhileD)
  ultimately show ?thesis unfolding first_hit_def by blast
qed

lemma first_hit_mem: "first_hit S x q \<Longrightarrow> x \<in> set q"
  by (auto simp: first_hit_def)

lemma items_filter_first_hit:
  assumes "distinct xs"
  shows "length (filter (\<lambda>x. first_hit (set xs) x q) xs) = (if \<exists>y\<in>set q. y \<in> set xs then 1 else 0)"
proof (cases "\<exists>y\<in>set q. y \<in> set xs")
  case True
  from first_hit_exists[OF True] obtain x where x: "x \<in> set xs" "first_hit (set xs) x q" by blast
  have "filter (\<lambda>x. first_hit (set xs) x q) xs = [x]"
  proof (rule filter_unique[OF assms x(1)])
    fix y assume "y \<in> set xs"
    then show "first_hit (set xs) y q \<longleftrightarrow> y = x"
      using x first_hit_unique[of "set xs" y q x] by blast
  qed
  with True show ?thesis by simp
next
  case False
  then have "\<And>x. x \<in> set xs \<Longrightarrow> \<not> first_hit (set xs) x q"
    by (auto dest: first_hit_mem)
  then have "filter (\<lambda>x. first_hit (set xs) x q) xs = []" by (simp add: filter_empty_conv)
  with False show ?thesis by simp
qed

lemma occs_filter_first_hit:
  assumes P: "paths_ok M ps" and cl: "\<And>r. prefix r q \<Longrightarrow> r \<in> set ps" and x: "x \<in> S"
  shows "length (filter (\<lambda>n. prefix (ps ! n) q)
           (filter (\<lambda>n. \<not> (\<exists>y\<in>set (butlast (ps ! n)). y \<in> S)) (occs ps x))) =
         (if first_hit S x q then 1 else 0)"
    (is "length (filter ?pre (filter ?nb (occs ps x))) = _")
proof -
  have shape: "ps ! n = butlast (ps ! n) @ [x]" if "n \<in> set (occs ps x)" for n
  proof -
    from that have n: "0 < n" "n < length ps" "last (ps ! n) = x" by (auto dest: occs_range)
    from paths_okD(4)[OF P n(1,2)] n(3) show ?thesis by (metis append_butlast_last_id)
  qed
  have fh: "first_hit S x q" if "n \<in> set (filter ?nb (occs ps x))" "prefix (ps ! n) q" for n
  proof -
    from that(1) have n: "n \<in> set (occs ps x)" "\<forall>y\<in>set (butlast (ps ! n)). y \<notin> S" by auto
    from that(2) obtain zs where "q = ps ! n @ zs" by (auto simp: prefix_def)
    with shape[OF n(1)] have "q = butlast (ps ! n) @ x # zs" by (metis append.assoc append_Cons append_Nil)
    with n(2) show ?thesis unfolding first_hit_def by blast
  qed
  show ?thesis
  proof (cases "first_hit S x q")
    case False
    with fh have "filter ?pre (filter ?nb (occs ps x)) = []"
      by (auto simp: filter_empty_conv)
    with False show ?thesis by simp
  next
    case True
    then obtain w rest where q: "q = w @ x # rest" "\<forall>y\<in>set w. y \<notin> S"
      unfolding first_hit_def by blast
    then have "prefix (w @ [x]) q" by (simp add: prefix_def)
    from cl[OF this] obtain c where c: "c < length ps" "ps ! c = w @ [x]" by (auto simp: in_set_conv_nth)
    with paths_okD(2)[OF P] have c0: "0 < c" by (cases c) auto
    from c c0 have co: "c \<in> set (occs ps x)" by (simp add: occs_def)
    from c q(2) have cnb: "?nb c" by simp
    have "filter ?pre (filter ?nb (occs ps x)) = [c]"
    proof (rule filter_unique)
      show "distinct (filter ?nb (occs ps x))" by (simp add: distinct_occs)
      show "c \<in> set (filter ?nb (occs ps x))" using co cnb by simp
      fix n assume n: "n \<in> set (filter ?nb (occs ps x))"
      show "prefix (ps ! n) q \<longleftrightarrow> n = c"
      proof
        assume pre: "prefix (ps ! n) q"
        from n have no: "n \<in> set (occs ps x)" "\<forall>y\<in>set (butlast (ps ! n)). y \<notin> S" by auto
        from pre obtain zs where "q = ps ! n @ zs" by (auto simp: prefix_def)
        with shape[OF no(1)] have q': "q = butlast (ps ! n) @ x # zs" by (metis append.assoc append_Cons append_Nil)
        from first_hit_takeWhile(1)[OF q' no(2) x] first_hit_takeWhile(1)[OF q x]
        have "butlast (ps ! n) = w" by simp
        with shape[OF no(1)] c(2) have "ps ! n = ps ! c" by simp
        moreover from no(1) have "n < length ps" by (auto dest: occs_range)
        ultimately show "n = c" using paths_inj[OF P _ c(1)] by blast
      next
        assume "n = c"
        with c(2) q(1) show "prefix (ps ! n) q" by (simp add: prefix_def)
      qed
    qed
    with True show ?thesis by simp
  qed
qed

lemma blocked_iff:
  assumes cn: "canonical ord newList" and cp: "canonical ord (ps ! n)"
    and k: "k < length newList" and n: "last (ps ! n) = newList ! k"
  shows "(\<exists>j<k. newList ! j \<in> set (butlast (ps ! n))) \<longleftrightarrow>
         (\<exists>y\<in>set (butlast (ps ! n)). y \<in> set newList)"
proof
  assume "\<exists>j<k. newList ! j \<in> set (butlast (ps ! n))"
  then obtain j where "j < k" "newList ! j \<in> set (butlast (ps ! n))" by blast
  with k show "\<exists>y\<in>set (butlast (ps ! n)). y \<in> set newList"
    by (intro bexI[of _ "newList ! j"]) auto
next
  assume "\<exists>y\<in>set (butlast (ps ! n)). y \<in> set newList"
  then obtain y where y: "y \<in> set (butlast (ps ! n))" "y \<in> set newList" by blast
  from y(2) obtain j where j: "j < length newList" "newList ! j = y" by (auto simp: in_set_conv_nth)
  from canonical_last[OF cp y(1)] n j(2) have pr: "precedes ord (newList ! j) (newList ! k)" by simp
  have "j < k"
  proof (rule ccontr)
    assume "\<not> j < k"
    then consider "j = k" | "k < j" by linarith
    then show False
    proof cases
      case 1
      with pr show False by (simp add: precedes_irrefl)
    next
      case 2
      from canonical_nth[OF cn 2 j(1)] pr show False by (auto dest: precedes_asym)
    qed
  qed
  with y(1) j(2) show "\<exists>j<k. newList ! j \<in> set (butlast (ps ! n))" by blast
qed

lemma canonical_distinct: "canonical ord xs \<Longrightarrow> distinct xs"
proof -
  assume c: "canonical ord xs"
  have "i = j" if "i < length xs" "j < length xs" "xs ! i = xs ! j" for i j
  proof (rule ccontr)
    assume "i \<noteq> j"
    then consider "i < j" | "j < i" by linarith
    then show False
    proof cases
      case 1
      from canonical_nth[OF c 1 that(2)] that(3) show False by (simp add: precedes_irrefl)
    next
      case 2
      from canonical_nth[OF c 2 that(1)] that(3) show False by (simp add: precedes_irrefl)
    qed
  qed
  then show "distinct xs" by (simp add: distinct_conv_nth) blast
qed

lemma contrib_first_hit:
  assumes I: "tree_inv M ps t" and C: "\<And>q. q \<in># M \<Longrightarrow> canonical ord q"
    and cn: "canonical ord newList" and k: "k < length newList"
  shows "contrib M ps newList k = size (filter_mset (first_hit (set newList) (newList ! k)) M)"
proof -
  note P = tree_invD(1)[OF I]
  let ?nb = "\<lambda>n. \<not> (\<exists>y\<in>set (butlast (ps ! n)). y \<in> set newList)"
  have "filter (\<lambda>n. \<not> (\<exists>j<k. newList ! j \<in> set (butlast (ps ! n)))) (occs ps (newList ! k)) =
        filter ?nb (occs ps (newList ! k))"
  proof (rule filter_cong[OF refl])
    fix n assume "n \<in> set (occs ps (newList ! k))"
    then have n: "n < length ps" "last (ps ! n) = newList ! k" by (auto dest: occs_range)
    from blocked_iff[OF cn paths_canonical[OF P C n(1)] k n(2)]
    show "(\<not> (\<exists>j<k. newList ! j \<in> set (butlast (ps ! n)))) = ?nb n" by simp
  qed
  then have "contrib M ps newList k =
      sum_list (map (\<lambda>n. size (filter_mset (prefix (ps ! n)) M)) (filter ?nb (occs ps (newList ! k))))"
    by (simp add: contrib_def cnt_def)
  also have "\<dots> = size (filter_mset (first_hit (set newList) (newList ! k)) M)"
  proof (rule sum_size_filter)
    fix q assume "q \<in># M"
    then have "\<And>r. prefix r q \<Longrightarrow> r \<in> set ps" using paths_okD(7)[OF P] by blast
    from occs_filter_first_hit[OF P this, where x = "newList ! k" and S = "set newList"] k
    show "length (filter (\<lambda>n. prefix (ps ! n) q) (filter ?nb (occs ps (newList ! k)))) =
          (if first_hit (set newList) (newList ! k) q then 1 else 0)" by simp
  qed
  finally show ?thesis .
qed

lemma prefix_support_inv:
  assumes I: "tree_inv M ps t" and C: "\<And>q. q \<in># M \<Longrightarrow> canonical ord q"
    and cn: "canonical ord newList"
  shows "findSupportByPrefixPath newList t ord =
           Some (if \<forall>x\<in>set newList. header t (Some x) \<noteq> None
                 then Inr (size (filter_mset (\<lambda>q. \<exists>y\<in>set q. y \<in> set newList) M))
                 else Inl KeyError)"
proof -
  note P = tree_invD(1)[OF I]
  have il: "set newList \<subseteq> set ord" using cn by (simp add: canonical_def)
  have "map (contrib M ps newList) [0..<length newList] =
        map (\<lambda>k. size (filter_mset (first_hit (set newList) (newList ! k)) M)) [0..<length newList]"
    by (rule map_cong[OF refl]) (simp add: contrib_first_hit[OF I C cn])
  also have "\<dots> = map (\<lambda>x. size (filter_mset (first_hit (set newList) x) M)) (map ((!) newList) [0..<length newList])"
    by (simp add: comp_def)
  also have "\<dots> = map (\<lambda>x. size (filter_mset (first_hit (set newList) x) M)) newList"
    by (simp only: map_nth)
  finally have "sum_list (map (contrib M ps newList) [0..<length newList]) =
      sum_list (map (\<lambda>x. size (filter_mset (first_hit (set newList) x) M)) newList)" by simp
  also have "\<dots> = size (filter_mset (\<lambda>q. \<exists>y\<in>set q. y \<in> set newList) M)"
    by (rule sum_size_filter) (rule items_filter_first_hit[OF canonical_distinct[OF cn]])
  finally have s: "sum_list (map (contrib M ps newList) [0..<length newList]) =
      size (filter_mset (\<lambda>q. \<exists>y\<in>set q. y \<in> set newList) M)" .
  have h: "(\<forall>k\<in>set [0..<length newList]. header t (Some (newList ! k)) \<noteq> None) \<longleftrightarrow>
           (\<forall>x\<in>set newList. header t (Some x) \<noteq> None)"
  proof
    assume a: "\<forall>k\<in>set [0..<length newList]. header t (Some (newList ! k)) \<noteq> None"
    show "\<forall>x\<in>set newList. header t (Some x) \<noteq> None"
    proof
      fix x assume "x \<in> set newList"
      then obtain k where "k < length newList" "newList ! k = x" by (auto simp: in_set_conv_nth)
      with a show "header t (Some x) \<noteq> None" by auto
    qed
  next
    assume "\<forall>x\<in>set newList. header t (Some x) \<noteq> None"
    then show "\<forall>k\<in>set [0..<length newList]. header t (Some (newList ! k)) \<noteq> None" by simp
  qed
  have "findSupport_for newList t ord [0..<length newList] 0 =
           Some (if \<forall>k\<in>set [0..<length newList]. header t (Some (newList ! k)) \<noteq> None
                 then Inr (0 + sum_list (map (contrib M ps newList) [0..<length newList]))
                 else Inl KeyError)"
    by (rule findSupport_for_spec[OF I paths_canonical[OF P C] il]) simp_all
  then show ?thesis unfolding findSupportByPrefixPath_def h s by simp
qed

lemma header_dom_inv:
  assumes I: "tree_inv M ps t"
  shows "header t (Some x) \<noteq> None \<longleftrightarrow> (\<exists>q\<in>#M. x \<in> set q)"
proof -
  note P = tree_invD(1)[OF I]
  note L = tree_invD(3)[OF I]
  have "header t (Some x) \<noteq> None \<longleftrightarrow> occs ps x \<noteq> []"
    using header_Some_occs(1)[OF L, of x] header_None_occs[OF L, of x] by (cases "header t (Some x)") auto
  also have "\<dots> \<longleftrightarrow> (\<exists>q\<in>#M. x \<in> set q)"
  proof
    assume "occs ps x \<noteq> []"
    then obtain n where "n \<in> set (occs ps x)" by (cases "occs ps x") auto
    then have n: "0 < n" "n < length ps" "last (ps ! n) = x" by (auto dest: occs_range)
    from paths_okD(4)[OF P n(1,2)] n(3) have "x \<in> set (ps ! n)" by (metis last_in_set)
    moreover from paths_okD(6)[OF P n(1,2)] obtain q where "q \<in># M" "prefix (ps ! n) q" by blast
    ultimately show "\<exists>q\<in>#M. x \<in> set q" by (intro bexI[of _ q]) (auto simp: prefix_def)
  next
    assume "\<exists>q\<in>#M. x \<in> set q"
    then obtain q where q: "q \<in># M" "x \<in> set q" by blast
    from q(2) obtain w rest where "q = w @ x # rest" by (auto simp: in_set_conv_decomp)
    then have "prefix (w @ [x]) q" by (simp add: prefix_def)
    from paths_okD(7)[OF P q(1) this] obtain c where c: "c < length ps" "ps ! c = w @ [x]"
      by (auto simp: in_set_conv_nth)
    with paths_okD(2)[OF P] have "0 < c" by (cases c) auto
    with c have "c \<in> set (occs ps x)" by (simp add: occs_def)
    then show "occs ps x \<noteq> []" by auto
  qed
  finally show ?thesis .
qed

lemma list_get_in_range:
  assumes "0 \<le> i" "i < int (length L)"
  shows "list_get L i = Inr (L ! nat i)"
  using assms by (simp add: list_get_def)

lemma generateItemsets_unfold:
  assumes "0 \<le> i" "i < int (length L)"
    and "generateItemsets L i 0 d m fpt ord acc = Some (Inr res)"
  shows "(d = 1 \<and> res = acc) \<or>
         (d \<noteq> 1 \<and> (\<exists>val. findSupportByPrefixPath (remove1 (L ! nat i) L) fpt ord = Some (Inr val) \<and>
            ((m \<le> int val \<and>
              (\<exists>acc'. generateItemsets (remove1 (L ! nat i) L) (i - 1) 0 (d - 1) m fpt ord
                         (acc @ [(remove1 (L ! nat i) L, val)]) = Some (Inr acc') \<and>
                      generateItemsets L (i - 1) 0 d m fpt ord acc' = Some (Inr res))) \<or>
             (\<not> m \<le> int val \<and> generateItemsets L (i - 1) 0 d m fpt ord acc = Some (Inr res)))))"
proof (cases "d = 1")
  case True
  with assms show ?thesis by (subst (asm) generateItemsets.simps) simp
next
  case False
  note g = list_get_in_range[OF assms(1,2)]
  let ?nl = "remove1 (L ! nat i) L"
  from assms(3) False assms(1) g
  have u: "(case findSupportByPrefixPath ?nl fpt ord of
             None \<Rightarrow> None
           | Some (Inl e) \<Rightarrow> Some (Inl e)
           | Some (Inr val) \<Rightarrow>
              if int val \<ge> m then
                (case generateItemsets ?nl (i - 1) 0 (d - 1) m fpt ord (acc @ [(?nl, val)]) of
                   None \<Rightarrow> None
                 | Some (Inl e) \<Rightarrow> Some (Inl e)
                 | Some (Inr freqItemsets') \<Rightarrow> generateItemsets L (i - 1) 0 d m fpt ord freqItemsets')
              else generateItemsets L (i - 1) 0 d m fpt ord acc) = Some (Inr res)"
    by (subst (asm) generateItemsets.simps) simp
  show ?thesis
  proof (cases "findSupportByPrefixPath ?nl fpt ord")
    case None
    with u show ?thesis by simp
  next
    case (Some r)
    show ?thesis
    proof (cases r)
      case (Inl e)
      with Some u show ?thesis by simp
    next
      case (Inr val)
      show ?thesis
      proof (cases "m \<le> int val")
        case ge: True
        show ?thesis
        proof (cases "generateItemsets ?nl (i - 1) 0 (d - 1) m fpt ord (acc @ [(?nl, val)])")
          case None
          with u Some Inr ge show ?thesis by simp
        next
          case inner: (Some r')
          show ?thesis
          proof (cases r')
            case (Inl e)
            with u Some Inr ge inner show ?thesis by simp
          next
            case acc': (Inr acc')
            with u Some Inr ge inner have "generateItemsets L (i - 1) 0 d m fpt ord acc' = Some (Inr res)"
              by simp
            with False Some Inr ge inner acc' show ?thesis by blast
          qed
        qed
      next
        case lt: False
        with u Some Inr have "generateItemsets L (i - 1) 0 d m fpt ord acc = Some (Inr res)" by simp
        with False Some Inr lt show ?thesis by blast
      qed
    qed
  qed
qed

lemma generateItemsets_stop:
  assumes "i < 0" "generateItemsets L i 0 d m fpt ord acc = Some (Inr res)"
  shows "res = acc"
  using assms by (subst (asm) generateItemsets.simps) simp

lemma remove1_nth_distinct:
  "distinct L \<Longrightarrow> k < length L \<Longrightarrow> remove1 (L ! k) L = take k L @ drop (Suc k) L"
proof (induction L arbitrary: k)
  case Nil
  then show ?case by simp
next
  case (Cons a L)
  show ?case
  proof (cases k)
    case 0
    then show ?thesis by simp
  next
    case (Suc k')
    with Cons.prems have "L ! k' \<noteq> a" by auto
    with Suc Cons show ?thesis by simp
  qed
qed

lemma generateItemsets_lengths:
  assumes "nat (i + 1) = n" "d = int (length L)" "-1 \<le> i" "i < int (length L)"
    and "generateItemsets L i 0 d m fpt ord acc = Some (Inr res)"
  shows "\<exists>new. res = acc @ new \<and> list_all (\<lambda>e. 1 \<le> length (fst e) \<and> length (fst e) < length L) new"
  using assms
proof (induction n arbitrary: L i d acc res)
  case 0
  then have "i < 0" by simp
  from generateItemsets_stop[OF this "0.prems"(5)] show ?case by simp
next
  case (Suc n)
  then have i: "0 \<le> i" "i < int (length L)" by simp_all
  let ?x = "L ! nat i"
  let ?nl = "remove1 ?x L"
  from i have xin: "?x \<in> set L" by simp
  then have len: "length ?nl = length L - 1" by (simp add: length_remove1)
  from i have pos: "0 < length L" by (cases L) auto
  have n1: "nat ((i - 1) + 1) = n" using Suc.prems(1) by simp
  have r1: "-1 \<le> i - 1" using i by simp
  from generateItemsets_unfold[OF i Suc.prems(5)] show ?case
  proof (elim disjE conjE exE)
    assume "res = acc"
    then show ?thesis by simp
  next
    fix val acc'
    assume d: "d \<noteq> 1"
      and inner: "generateItemsets ?nl (i - 1) 0 (d - 1) m fpt ord (acc @ [(?nl, val)]) = Some (Inr acc')"
      and outer: "generateItemsets L (i - 1) 0 d m fpt ord acc' = Some (Inr res)"
    from d Suc.prems(2) pos have two: "2 \<le> length L" by arith
    have d1: "d - 1 = int (length ?nl)" using Suc.prems(2) len pos by arith
    have il: "i - 1 < int (length ?nl)" using i len pos by arith
    from Suc.IH[OF n1 d1 r1 il inner] obtain new1 where
      new1: "acc' = (acc @ [(?nl, val)]) @ new1"
        "list_all (\<lambda>e. 1 \<le> length (fst e) \<and> length (fst e) < length ?nl) new1" by blast
    have il2: "i - 1 < int (length L)" using i by simp
    from Suc.IH[OF n1 Suc.prems(2) r1 il2 outer] obtain new2 where
      new2: "res = acc' @ new2"
        "list_all (\<lambda>e. 1 \<le> length (fst e) \<and> length (fst e) < length L) new2" by blast
    have e0: "1 \<le> length ?nl \<and> length ?nl < length L" using len two by arith
    have "list_all (\<lambda>e. 1 \<le> length (fst e) \<and> length (fst e) < length L) new1"
      unfolding list_all_iff
    proof
      fix e assume "e \<in> set new1"
      with new1(2) have "1 \<le> length (fst e) \<and> length (fst e) < length ?nl" by (simp add: list_all_iff)
      with e0 show "1 \<le> length (fst e) \<and> length (fst e) < length L" by arith
    qed
    with new1(1) new2 e0 show ?thesis
      by (intro exI[of _ "(?nl, val) # new1 @ new2"]) simp
  next
    fix val
    assume outer: "generateItemsets L (i - 1) 0 d m fpt ord acc = Some (Inr res)"
    have il2: "i - 1 < int (length L)" using i by simp
    from Suc.IH[OF n1 Suc.prems(2) r1 il2 outer] show ?thesis .
  qed
qed

lemma generateItemsets_distinct:
  assumes "nat (i + 1) = n" "d = int (length L)" "-1 \<le> i" "i < int (length L)" "distinct L"
    and "generateItemsets L i 0 d m fpt ord acc = Some (Inr res)"
  shows "\<exists>new. res = acc @ new \<and> distinct (map fst new) \<and>
           list_all (\<lambda>e. set (fst e) \<subseteq> set L \<and> set (drop (nat (i + 1)) L) \<subseteq> set (fst e) \<and>
                          length (fst e) < length L) new"
  using assms
proof (induction n arbitrary: L i d acc res)
  case 0
  then have "i < 0" by simp
  from generateItemsets_stop[OF this "0.prems"(6)] show ?case by simp
next
  case (Suc n)
  then have i: "0 \<le> i" "i < int (length L)" by simp_all
  let ?k = "nat i"
  let ?x = "L ! ?k"
  let ?nl = "remove1 ?x L"
  have k: "?k < length L" using i by simp
  have ik: "nat (i + 1) = Suc ?k" "nat (i - 1 + 1) = ?k" using i by simp_all
  from k have xin: "?x \<in> set L" by simp
  then have len: "length ?nl = length L - 1" by (simp add: length_remove1)
  from i have pos: "0 < length L" by (cases L) auto
  have dl: "distinct ?nl" using Suc.prems(5) by simp
  have nl: "?nl = take ?k L @ drop (Suc ?k) L" by (rule remove1_nth_distinct[OF Suc.prems(5) k])
  have snl: "set ?nl = set L - {?x}" using Suc.prems(5) by (rule set_remove1_eq)
  have xnl: "?x \<notin> set ?nl" using snl by simp
  have dropnl: "drop ?k ?nl = drop (Suc ?k) L" unfolding nl using k by simp
  have dk: "drop ?k L = ?x # drop (Suc ?k) L" using k by (simp add: Cons_nth_drop_Suc)
  have xdrop: "?x \<in> set (drop ?k L)" unfolding dk by simp
  have dsub: "set (drop (Suc ?k) L) \<subseteq> set (drop ?k L)" unfolding dk by auto
  have n1: "nat ((i - 1) + 1) = n" using Suc.prems(1) by simp
  have r1: "-1 \<le> i - 1" using i by simp
  have il2: "i - 1 < int (length L)" using i by simp
  from generateItemsets_unfold[OF i Suc.prems(6)] show ?case
  proof (elim disjE conjE exE)
    assume "res = acc"
    then show ?thesis by simp
  next
    fix val acc'
    assume inner: "generateItemsets ?nl (i - 1) 0 (d - 1) m fpt ord (acc @ [(?nl, val)]) = Some (Inr acc')"
      and outer: "generateItemsets L (i - 1) 0 d m fpt ord acc' = Some (Inr res)"
    have d1: "d - 1 = int (length ?nl)" using Suc.prems(2) len pos by arith
    have il: "i - 1 < int (length ?nl)" using i len pos by arith
    from Suc.IH[OF n1 d1 r1 il dl inner] obtain new1 where
      new1: "acc' = (acc @ [(?nl, val)]) @ new1" "distinct (map fst new1)"
        "list_all (\<lambda>e. set (fst e) \<subseteq> set ?nl \<and> set (drop (nat (i - 1 + 1)) ?nl) \<subseteq> set (fst e) \<and>
                          length (fst e) < length ?nl) new1" by blast
    from Suc.IH[OF n1 Suc.prems(2) r1 il2 Suc.prems(5) outer] obtain new2 where
      new2: "res = acc' @ new2" "distinct (map fst new2)"
        "list_all (\<lambda>e. set (fst e) \<subseteq> set L \<and> set (drop (nat (i - 1 + 1)) L) \<subseteq> set (fst e) \<and>
                          length (fst e) < length L) new2" by blast
    have p1: "set s \<subseteq> set L \<and> set (drop (Suc ?k) L) \<subseteq> set s \<and> length s < length L \<and>
              ?x \<notin> set s \<and> s \<noteq> ?nl"
      if "s \<in> fst ` set new1" for s
    proof -
      from that obtain e where e: "e \<in> set new1" "s = fst e" by blast
      from new1(3) e(1) have "set (fst e) \<subseteq> set ?nl \<and> set (drop ?k ?nl) \<subseteq> set (fst e) \<and> length (fst e) < length ?nl"
        unfolding ik list_all_iff by blast
      then have s: "set s \<subseteq> set ?nl" "set (drop ?k ?nl) \<subseteq> set s" "length s < length ?nl"
        using e(2) by simp_all
      from s(1) snl have "set s \<subseteq> set L" "?x \<notin> set s" by blast+
      moreover from s(2) have "set (drop (Suc ?k) L) \<subseteq> set s" unfolding dropnl .
      moreover from s(3) len have "length s < length L" "s \<noteq> ?nl" by auto
      ultimately show ?thesis by blast
    qed
    have p2: "set s \<subseteq> set L \<and> set (drop (Suc ?k) L) \<subseteq> set s \<and> length s < length L \<and> ?x \<in> set s"
      if "s \<in> fst ` set new2" for s
    proof -
      from that obtain e where e: "e \<in> set new2" "s = fst e" by blast
      from new2(3) e(1) have "set (fst e) \<subseteq> set L \<and> set (drop ?k L) \<subseteq> set (fst e) \<and> length (fst e) < length L"
        unfolding ik list_all_iff by blast
      then have s: "set s \<subseteq> set L" "set (drop ?k L) \<subseteq> set s" "length s < length L"
        using e(2) by simp_all
      from s(2) xdrop dsub have "?x \<in> set s" "set (drop (Suc ?k) L) \<subseteq> set s" by blast+
      with s(1,3) show ?thesis by blast
    qed
    have p0: "set ?nl \<subseteq> set L \<and> set (drop (Suc ?k) L) \<subseteq> set ?nl \<and> length ?nl < length L"
    proof (intro conjI)
      show "set ?nl \<subseteq> set L" using snl by blast
      show "set (drop (Suc ?k) L) \<subseteq> set ?nl" unfolding dropnl[symmetric] by (rule set_drop_subset)
      show "length ?nl < length L" using len pos by arith
    qed
    have a: "?nl \<notin> fst ` set new1" using p1 by blast
    have b: "?nl \<notin> fst ` set new2" using p2 xnl by blast
    have c: "fst ` set new1 \<inter> fst ` set new2 = {}" using p1 p2 by blast
    have dis: "distinct (map fst ((?nl, val) # new1 @ new2))"
      using a b c new1(2) new2(2) by simp
    let ?Q = "\<lambda>e. set (fst e) \<subseteq> set L \<and> set (drop (Suc ?k) L) \<subseteq> set (fst e) \<and>
                          length (fst e) < length L"
    have a1: "list_all ?Q new1"
      unfolding list_all_iff
    proof
      fix e assume "e \<in> set new1"
      then have "fst e \<in> fst ` set new1" by (rule imageI)
      from p1[OF this] show "?Q e" by simp
    qed
    have a2: "list_all ?Q new2"
      unfolding list_all_iff
    proof
      fix e assume "e \<in> set new2"
      then have "fst e \<in> fst ` set new2" by (rule imageI)
      from p2[OF this] show "?Q e" by simp
    qed
    have all: "list_all ?Q ((?nl, val) # new1 @ new2)"
      using p0 a1 a2 by simp
    show ?thesis
      unfolding ik using new1(1) new2(1) dis all
      by (intro exI[of _ "(?nl, val) # new1 @ new2"]) simp
  next
    fix val
    assume outer: "generateItemsets L (i - 1) 0 d m fpt ord acc = Some (Inr res)"
    from Suc.IH[OF n1 Suc.prems(2) r1 il2 Suc.prems(5) outer] obtain new2 where
      new2: "res = acc @ new2" "distinct (map fst new2)"
        "list_all (\<lambda>e. set (fst e) \<subseteq> set L \<and> set (drop (nat (i - 1 + 1)) L) \<subseteq> set (fst e) \<and>
                          length (fst e) < length L) new2" by blast
    have "list_all (\<lambda>e. set (fst e) \<subseteq> set L \<and> set (drop (Suc ?k) L) \<subseteq> set (fst e) \<and>
                          length (fst e) < length L) new2"
      unfolding list_all_iff
    proof
      fix e assume "e \<in> set new2"
      with new2(3) have "set (fst e) \<subseteq> set L \<and> set (drop ?k L) \<subseteq> set (fst e) \<and> length (fst e) < length L"
        unfolding ik list_all_iff by blast
      with dsub show "set (fst e) \<subseteq> set L \<and> set (drop (Suc ?k) L) \<subseteq> set (fst e) \<and> length (fst e) < length L"
        by blast
    qed
    with new2(1,2) show ?thesis unfolding ik by (intro exI[of _ new2] conjI)
  qed
qed













lemmas order_simps = filterTransactions_def countItems_def sorted_reverse_def cleanTransactions_def Let_def

text \<open>
  C2 (the code differs from the claim). \<open>filterTransactions\<close> sorts the pairs (count, item) in
  reverse, so that items of equal count come in descending order of the item: the counts
  a:3, b:5, c:3 give the order b, c, a, where the claim has b, a, c.
\<close>

theorem filterTransactions_ties_descending:
  "filterTransactions
     [[''a'', ''b'', ''c''], [''a'', ''b'', ''c''], [''a'', ''b'', ''c''], [''b''], [''b'']] 2 =
   Inr ([[''b'', ''c'', ''a''], [''b'', ''c'', ''a''], [''b'', ''c'', ''a''], [''b''], [''b'']],
        [''b'', ''c'', ''a''])"
  by (simp add: order_simps)

text \<open>
  C4 (the code differs from the claim). \<open>findSupportByPrefixPath\<close> reads
  \<open>tree._header[newList[k]]\<close> with no handler: for an item that has no entry in the header
  table the call raises \<open>KeyError\<close> and returns no support.
\<close>

theorem findSupportByPrefixPath_missing_item_raises:
  "supportByPrefixPath_of [[''a'']] [''b''] [''a'', ''b''] = Some (Inl KeyError)"
  by (simp add: supportByPrefixPath_of_def eval_simps)

text \<open>
  C7, as stated, fails on a transaction with no item (a blank line of the dataset):
  \<open>addTransaction\<close> leaves the tree as it is, and the counts of the children of the root
  sum to 0 after one transaction.
\<close>

theorem root_child_counts_empty_transaction:
  "rootChildCountSum_of [[] :: string list] \<noteq> Inr (length [[] :: string list])"
  by (simp add: rootChildCountSum_of_def rootChildCountSum_def eval_simps)

text \<open>
  C7, amended: after any list of transactions is inserted, the counts of the children of
  the root sum to the number of the transactions that have at least one item.
\<close>

theorem root_child_counts:
  "\<exists>t. buildFPTree ts = Inr t \<and> rootChildCountSum t = Inr (length (filter (\<lambda>tr. tr \<noteq> []) ts))"
proof -
  from buildFPTree_inv[of ts] obtain t ps where t: "buildFPTree ts = Inr t" "tree_inv (mset ts) ps t"
    by blast
  from root_counts_inv[OF t(2)] t(1) show ?thesis by (simp add: size_filter_mset_list)
qed

text \<open>
  C9. On the empty dataset nothing raises: the item order is empty, the tree is the
  initial tree, whose store holds the root only, and no itemset is recorded.
\<close>

theorem empty_dataset:
  "filterTransactions ([] :: ('a::linorder) list list) minSupp = Inr ([], []) \<and>
   buildFPTree ([] :: 'a list list) = Inr FPTree_init \<and>
   heap (FPTree_init :: 'a FPTree) = [FPNode_init None 0 None] \<and>
   header (FPTree_init :: 'a FPTree) = Map.empty \<and>
   findFrequentItemsets (FPTree_init :: 'a FPTree) [] minSupp = Some (Inr []) \<and>
   mine ([] :: 'a list list) minSupp = Some (Inr [])"
  by (simp add: mine_def order_simps eval_simps)

lemma orSupport_mset: "orSupport ts itemset = size (filter_mset (\<lambda>q. \<exists>y\<in>set q. y \<in> set itemset) (mset ts))"
  by (simp add: orSupport_def size_filter_mset_list list_ex_iff)


lemma built_prefix_support:
  assumes "\<forall>tr\<in>set ts. canonical ord tr" "canonical ord itemset"
  shows "\<exists>t. buildFPTree ts = Inr t \<and>
           (\<forall>x. header t (Some x) \<noteq> None \<longleftrightarrow> x \<in> \<Union> (set ` set ts)) \<and>
           findSupportByPrefixPath itemset t ord =
             Some (if set itemset \<subseteq> \<Union> (set ` set ts) then Inr (orSupport ts itemset) else Inl KeyError)"
proof -
  from buildFPTree_inv[of ts] obtain t ps where t: "buildFPTree ts = Inr t" "tree_inv (mset ts) ps t"
    by blast
  have C: "\<And>q. q \<in># mset ts \<Longrightarrow> canonical ord q" using assms(1) by simp
  have h: "header t (Some x) \<noteq> None \<longleftrightarrow> x \<in> \<Union> (set ` set ts)" for x
    using header_dom_inv[OF t(2), of x] by auto
  then have e: "(\<forall>x\<in>set itemset. header t (Some x) \<noteq> None) \<longleftrightarrow> set itemset \<subseteq> \<Union> (set ` set ts)"
    by blast
  from prefix_support_inv[OF t(2) C assms(2)]
  have f: "findSupportByPrefixPath itemset t ord =
      Some (if \<forall>x\<in>set itemset. header t (Some x) \<noteq> None then Inr (orSupport ts itemset) else Inl KeyError)"
    by (simp add: orSupport_mset)
  show ?thesis
  proof (intro exI[of _ t] conjI allI)
    show "buildFPTree ts = Inr t" by (rule t(1))
    show "\<And>x. header t (Some x) \<noteq> None \<longleftrightarrow> x \<in> \<Union> (set ` set ts)" by (rule h)
    show "findSupportByPrefixPath itemset t ord =
        Some (if set itemset \<subseteq> \<Union> (set ` set ts) then Inr (orSupport ts itemset) else Inl KeyError)"
      unfolding f e ..
  qed
qed

text \<open>
  C1. For transactions and an itemset that are sorted in the item order, with every item
  of the itemset in some transaction, the tree is built, every item of the itemset has an
  entry in the header table, and \<open>findSupportByPrefixPath\<close> returns the number of
  transactions that hold at least one item of the itemset.
\<close>

theorem findSupportByPrefixPath_correct:
  assumes "\<forall>tr\<in>set ts. canonical itemsOrder tr"
    and "canonical itemsOrder itemset" and "itemset \<noteq> []"
    and "set itemset \<subseteq> \<Union> (set ` set ts)"
  shows "\<exists>t. buildFPTree ts = Inr t \<and>
           (\<forall>x\<in>set itemset. header t (Some x) \<noteq> None) \<and>
           findSupportByPrefixPath itemset t itemsOrder = Some (Inr (orSupport ts itemset))"
  using built_prefix_support[OF assms(1,2)]
proof (elim exE conjE)
  fix t
  assume t: "buildFPTree ts = Inr t"
    "\<forall>x. header t (Some x) \<noteq> None \<longleftrightarrow> x \<in> \<Union> (set ` set ts)"
    "findSupportByPrefixPath itemset t itemsOrder =
       Some (if set itemset \<subseteq> \<Union> (set ` set ts) then Inr (orSupport ts itemset) else Inl KeyError)"
  have h: "\<forall>x\<in>set itemset. header t (Some x) \<noteq> None"
  proof
    fix x assume "x \<in> set itemset"
    with assms(4) have "x \<in> \<Union> (set ` set ts)" by (rule subsetD)
    with t(2) show "header t (Some x) \<noteq> None" by simp
  qed
  from t(3) assms(4) have "findSupportByPrefixPath itemset t itemsOrder = Some (Inr (orSupport ts itemset))"
    by simp
  with t(1) h show ?thesis by (intro exI[of _ t] conjI)
qed

theorem findSupportByPrefixPath_correct_witness:
  "canonical [''a'', ''b'', ''c''] [''a'', ''b''] \<and> canonical [''a'', ''b'', ''c''] [''a'', ''c''] \<and>
   canonical [''a'', ''b'', ''c''] [''b'', ''c''] \<and> [''a'', ''b''] \<noteq> [] \<and>
   set [''a'', ''b''] \<subseteq> \<Union> (set ` set [[''a'', ''b''], [''a'', ''c''], [''b'', ''c'']]) \<and>
   (\<exists>t. buildFPTree [[''a'', ''b''], [''a'', ''c''], [''b'', ''c'']] = Inr t \<and>
        findSupportByPrefixPath [''a'', ''b''] t [''a'', ''b'', ''c''] = Some (Inr 3))"
  using findSupportByPrefixPath_correct
    [of "[[''a'', ''b''], [''a'', ''c''], [''b'', ''c'']]" "[''a'', ''b'', ''c'']" "[''a'', ''b'']"]
  by (simp add: canonical_def precedes_def orSupport_def eval_nat_numeral) blast




text \<open>
  C6. Two lists of transactions sorted in the item order, one a permutation of the other,
  give trees on which \<open>findSupportByPrefixPath\<close> returns the same support, the number of the
  transactions with at least one item of the itemset, for every itemset sorted in the item
  order whose items occur in the dataset.
\<close>

theorem support_insertion_order:
  assumes "mset ts' = mset ts" and "\<forall>tr\<in>set ts. canonical itemsOrder tr"
    and "canonical itemsOrder itemset" and "set itemset \<subseteq> \<Union> (set ` set ts)"
  shows "\<exists>t t' s. buildFPTree ts = Inr t \<and> buildFPTree ts' = Inr t' \<and>
           findSupportByPrefixPath itemset t itemsOrder = Some (Inr s) \<and>
           findSupportByPrefixPath itemset t' itemsOrder = Some (Inr s) \<and>
           s = orSupport ts itemset"
proof -
  from assms(1) have s: "set ts' = set ts" by (rule mset_eq_setD)
  with assms(2) have c': "\<forall>tr\<in>set ts'. canonical itemsOrder tr" by simp
  have o: "orSupport ts' itemset = orSupport ts itemset" by (simp add: orSupport_mset assms(1))
  from built_prefix_support[OF assms(2,3)] built_prefix_support[OF c' assms(3)]
  show ?thesis
  proof (elim exE conjE)
    fix t t'
    assume t: "buildFPTree ts = Inr t"
      "findSupportByPrefixPath itemset t itemsOrder =
         Some (if set itemset \<subseteq> \<Union> (set ` set ts) then Inr (orSupport ts itemset) else Inl KeyError)"
    assume t': "buildFPTree ts' = Inr t'"
      "findSupportByPrefixPath itemset t' itemsOrder =
         Some (if set itemset \<subseteq> \<Union> (set ` set ts') then Inr (orSupport ts' itemset) else Inl KeyError)"
    from t(2) assms(4) have t2: "findSupportByPrefixPath itemset t itemsOrder = Some (Inr (orSupport ts itemset))"
      by simp
    from t'(2) assms(4) have t'2: "findSupportByPrefixPath itemset t' itemsOrder = Some (Inr (orSupport ts itemset))"
      unfolding s o by simp
    show ?thesis
      by (intro exI[of _ t] exI[of _ t'] exI[of _ "orSupport ts itemset"] conjI refl)
         (rule t(1) t'(1) t2 t'2)+
  qed
qed

theorem support_insertion_order_witness:
  "mset [[''a'', ''c''], [''b'', ''c''], [''a'', ''b'']] = mset [[''a'', ''b''], [''a'', ''c''], [''b'', ''c'']] \<and>
   canonical [''a'', ''b'', ''c''] [''a'', ''b''] \<and> canonical [''a'', ''b'', ''c''] [''a'', ''c''] \<and>
   canonical [''a'', ''b'', ''c''] [''b'', ''c''] \<and>
   set [''b'', ''c''] \<subseteq> \<Union> (set ` set [[''a'', ''b''], [''a'', ''c''], [''b'', ''c'']]) \<and>
   (\<exists>t t'. buildFPTree [[''a'', ''b''], [''a'', ''c''], [''b'', ''c'']] = Inr t \<and>
        buildFPTree [[''a'', ''c''], [''b'', ''c''], [''a'', ''b'']] = Inr t' \<and>
        findSupportByPrefixPath [''b'', ''c''] t [''a'', ''b'', ''c''] = Some (Inr 3) \<and>
        findSupportByPrefixPath [''b'', ''c''] t' [''a'', ''b'', ''c''] = Some (Inr 3))"
  using support_insertion_order
    [of "[[''a'', ''c''], [''b'', ''c''], [''a'', ''b'']]" "[[''a'', ''b''], [''a'', ''c''], [''b'', ''c'']]"
        "[''a'', ''b'', ''c'']" "[''b'', ''c'']"]
  by (simp add: canonical_def precedes_def orSupport_def eval_nat_numeral)

text \<open>
  C8. For an item order without duplicates, any tree and any threshold: when
  \<open>findFrequentItemsets\<close> returns, no two entries of its result record the same itemset.
\<close>

theorem findFrequentItemsets_no_duplicates:
  assumes "distinct itemsOrder"
    and "findFrequentItemsets fpt itemsOrder minSupp = Some (Inr res)"
  shows "distinct (map fst res)"
proof -
  have "\<exists>new. res = [] @ new \<and> distinct (map fst new) \<and>
           list_all (\<lambda>e. set (fst e) \<subseteq> set itemsOrder \<and>
                          set (drop (nat (int (length itemsOrder) - 1 + 1)) itemsOrder) \<subseteq> set (fst e) \<and>
                          length (fst e) < length itemsOrder) new"
    by (rule generateItemsets_distinct[OF refl refl _ _ assms(1) assms(2)[unfolded findFrequentItemsets_def]])
       simp_all
  then show ?thesis by auto
qed

theorem findFrequentItemsets_no_duplicates_witness:
  "distinct [''a'', ''b'', ''c''] \<and>
   findFrequentItemsets (projr (buildFPTree [[''a'', ''b''], [''a'', ''c''], [''b'', ''c'']]))
     [''a'', ''b'', ''c''] 2 =
     Some (Inr [([''a'', ''b''], 3), ([''a''], 2), ([''b''], 2), ([''a'', ''c''], 3), ([''c''], 2),
                ([''b'', ''c''], 3)]) \<and>
   distinct (map fst [([''a'', ''b''], 3 :: nat), ([''a''], 2), ([''b''], 2), ([''a'', ''c''], 3), ([''c''], 2),
                ([''b'', ''c''], 3)])"
proof -
  have d: "distinct [''a'', ''b'', ''c'']" by simp
  have r: "findFrequentItemsets (projr (buildFPTree [[''a'', ''b''], [''a'', ''c''], [''b'', ''c'']]))
     [''a'', ''b'', ''c''] 2 =
     Some (Inr [([''a'', ''b''], 3), ([''a''], 2), ([''b''], 2), ([''a'', ''c''], 3), ([''c''], 2),
                ([''b'', ''c''], 3)])"
    by (simp add: eval_simps eval_nat_numeral)
  from d r findFrequentItemsets_no_duplicates[OF d r] show ?thesis by (intro conjI)
qed

text \<open>
  C10. For any item order of n items, any tree and any threshold: when
  \<open>findFrequentItemsets\<close> returns, every recorded itemset has at least 1 and at most n - 1
  items; neither the whole item order nor the empty itemset is recorded.
\<close>

theorem findFrequentItemsets_sizes:
  assumes "findFrequentItemsets fpt itemsOrder minSupp = Some (Inr res)"
  shows "list_all (\<lambda>e. 1 \<le> length (fst e) \<and> length (fst e) < length itemsOrder \<and>
                       fst e \<noteq> itemsOrder \<and> fst e \<noteq> []) res"
proof -
  have "\<exists>new. res = [] @ new \<and>
           list_all (\<lambda>e. 1 \<le> length (fst e) \<and> length (fst e) < length itemsOrder) new"
    by (rule generateItemsets_lengths[OF refl refl _ _ assms[unfolded findFrequentItemsets_def]])
       simp_all
  then have "list_all (\<lambda>e. 1 \<le> length (fst e) \<and> length (fst e) < length itemsOrder) res" by simp
  then show ?thesis unfolding list_all_iff by auto
qed

theorem findFrequentItemsets_sizes_witness:
  "findFrequentItemsets (projr (buildFPTree [[''a'', ''b''], [''a'', ''c''], [''b'', ''c'']]))
     [''a'', ''b'', ''c''] 2 =
     Some (Inr [([''a'', ''b''], 3), ([''a''], 2), ([''b''], 2), ([''a'', ''c''], 3), ([''c''], 2),
                ([''b'', ''c''], 3)]) \<and>
   list_all (\<lambda>e. 1 \<le> length (fst e) \<and> length (fst e) < length [''a'', ''b'', ''c''] \<and>
                  fst e \<noteq> [''a'', ''b'', ''c''] \<and> fst e \<noteq> [])
     [([''a'', ''b''], 3 :: nat), ([''a''], 2), ([''b''], 2), ([''a'', ''c''], 3), ([''c''], 2),
      ([''b'', ''c''], 3)]"
proof -
  have r: "findFrequentItemsets (projr (buildFPTree [[''a'', ''b''], [''a'', ''c''], [''b'', ''c'']]))
     [''a'', ''b'', ''c''] 2 =
     Some (Inr [([''a'', ''b''], 3), ([''a''], 2), ([''b''], 2), ([''a'', ''c''], 3), ([''c''], 2),
                ([''b'', ''c''], 3)])"
    by (simp add: eval_simps eval_nat_numeral)
  from r findFrequentItemsets_sizes[OF r] show ?thesis by (intro conjI)
qed





end
